theory Spec2Isabelle
  imports Main "HOL-Library.Word"
begin

section \<open>Data model of muduo::Buffer\<close>

text \<open>
  The class of \<^verbatim>\<open>src/buffer/muduo_buffer.h\<close>: a \<^verbatim>\<open>std::vector<char>\<close> and two
  \<^verbatim>\<open>size_t\<close> cursors (the fields lose their trailing underscore, which a name
  cannot end with here). \<^verbatim>\<open>size_t\<close> is the 64-bit unsigned type, so every sum and
  difference of the source wraps modulo \<open>2 ^ 64\<close>; a \<^verbatim>\<open>char\<close> is one byte. A pointer
  into the storage (\<^verbatim>\<open>peek()\<close>, \<^verbatim>\<open>beginWrite()\<close>, the argument of
  \<^verbatim>\<open>retrieveUntil\<close>) is its offset from \<^verbatim>\<open>begin()\<close>, so \<^verbatim>\<open>begin() + i\<close> is
  \<open>i\<close>; a pointer to caller memory (\<^verbatim>\<open>data\<close>) is the list of the bytes found there.

  Assertions are enabled. A failing \<^verbatim>\<open>assert\<close> and a copy that leaves the storage
  (undefined in C++) are results of their own, so that every operation is a function into
  \<open>error + _\<close>. Allocation never fails in the model.

  The source has three slips of syntax that leave the meaning of the statement plain, and
  they are read as meant: \<^verbatim>\<open>sizeof int32_t\<close> without parentheses (the size of the type:
  8, 4, 2, 1 bytes), a missing semicolon after the assertion of \<^verbatim>\<open>retrieve\<close>, and a
  full-width comma in the \<^verbatim>\<open>std::copy\<close> of \<^verbatim>\<open>makeSpace\<close>. Two other places lack a
  value, and the model takes it as an argument: see \<open>prependInt32\<close> and \<open>shrink\<close>.
\<close>

type_synonym size_t = "64 word"
type_synonym byte = "8 word"

datatype error = AssertionFailed | OutOfBounds

record Buffer =
  buffer :: "byte list"
  readerIndex :: size_t
  writerIndex :: size_t

definition kCheapPrepend :: size_t where
  "kCheapPrepend = 8"

definition kInitialSize :: size_t where
  "kInitialSize = 1024"

subsection \<open>Sequencing, assertions, memory\<close>

definition and_then :: "error + 'a \<Rightarrow> ('a \<Rightarrow> error + 'b) \<Rightarrow> error + 'b" where
  "and_then m f = (case m of Inl e \<Rightarrow> Inl e | Inr x \<Rightarrow> f x)"

definition assert :: "bool \<Rightarrow> error + unit" where
  "assert c = (if c then Inr () else Inl AssertionFailed)"

text \<open>\<^verbatim>\<open>std::vector::size\<close> and \<^verbatim>\<open>std::vector::resize\<close> (new bytes are zero).\<close>

definition vec_size :: "byte list \<Rightarrow> size_t" where
  "vec_size v = of_nat (length v)"

definition vec_resize :: "byte list \<Rightarrow> size_t \<Rightarrow> byte list" where
  "vec_resize v n = take (unat n) v @ replicate (unat n - length v) 0"

text \<open>
  Reading \<open>n\<close> bytes at offset \<open>p\<close>, reading the range from offset \<open>p\<close> up to \<open>q\<close>, and
  \<^verbatim>\<open>std::copy\<close> of the bytes \<open>d\<close> to offset \<open>p\<close>. A range that leaves the memory or
  runs backwards is \<open>OutOfBounds\<close>. The source range is read before the destination is
  written; for the one overlapping copy of the source (in \<^verbatim>\<open>makeSpace\<close>, destination
  below source) that is what the forward copy of \<^verbatim>\<open>std::copy\<close> produces.
\<close>

definition mem_read :: "byte list \<Rightarrow> nat \<Rightarrow> nat \<Rightarrow> error + byte list" where
  "mem_read m p n = (if p + n \<le> length m then Inr (take n (drop p m)) else Inl OutOfBounds)"

definition mem_range :: "byte list \<Rightarrow> nat \<Rightarrow> nat \<Rightarrow> error + byte list" where
  "mem_range m p q = (if p \<le> q then mem_read m p (q - p) else Inl OutOfBounds)"

definition mem_write :: "byte list \<Rightarrow> nat \<Rightarrow> byte list \<Rightarrow> error + byte list" where
  "mem_write m p d =
     (if p + length d \<le> length m then Inr (take p m @ d @ drop (p + length d) m)
      else Inl OutOfBounds)"

text \<open>
  The object representation of an integer, as \<^verbatim>\<open>memcpy\<close> sees it: host byte order,
  here little-endian. \<open>le_bytes n x\<close> are the \<open>n\<close> low bytes of \<open>x\<close>, lowest first.
\<close>

fun le_bytes :: "nat \<Rightarrow> 'a::len word \<Rightarrow> byte list" where
  "le_bytes 0 x = []"
| "le_bytes (Suc n) x = ucast x # le_bytes n (drop_bit 8 x)"

fun le_word :: "byte list \<Rightarrow> 'a::len word" where
  "le_word [] = 0"
| "le_word (c # cs) = or (ucast c) (push_bit 8 (le_word cs))"

subsection \<open>Observers\<close>

definition readableBytes :: "Buffer \<Rightarrow> size_t" where
  "readableBytes b = writerIndex b - readerIndex b"

definition writableBytes :: "Buffer \<Rightarrow> size_t" where
  "writableBytes b = vec_size (buffer b) - writerIndex b"

definition prependableBytes :: "Buffer \<Rightarrow> size_t" where
  "prependableBytes b = readerIndex b"

definition peek :: "Buffer \<Rightarrow> size_t" where
  "peek b = readerIndex b"

definition beginWrite :: "Buffer \<Rightarrow> size_t" where
  "beginWrite b = writerIndex b"

text \<open>The constructor \<^verbatim>\<open>Buffer(size_t initialSize = kInitialSize)\<close> with its three assertions.\<close>

definition new_Buffer :: "size_t \<Rightarrow> error + Buffer" where
  "new_Buffer initialSize =
     (let b = \<lparr>buffer = replicate (unat (kCheapPrepend + initialSize)) 0,
               readerIndex = kCheapPrepend,
               writerIndex = kCheapPrepend\<rparr>
      in and_then (assert (readableBytes b = 0)) (\<lambda>_.
         and_then (assert (writableBytes b = initialSize)) (\<lambda>_.
         and_then (assert (prependableBytes b = kCheapPrepend)) (\<lambda>_.
         Inr b))))"

definition swap :: "Buffer \<Rightarrow> Buffer \<Rightarrow> Buffer \<times> Buffer" where
  "swap b rhs =
     (b\<lparr>buffer := buffer rhs, readerIndex := readerIndex rhs, writerIndex := writerIndex rhs\<rparr>,
      rhs\<lparr>buffer := buffer b, readerIndex := readerIndex b, writerIndex := writerIndex b\<rparr>)"

subsection \<open>Peeking integers\<close>

definition peekInt32 :: "Buffer \<Rightarrow> error + 32 word" where
  "peekInt32 b =
     and_then (assert (readableBytes b \<ge> 4)) (\<lambda>_.
     and_then (mem_read (buffer b) (unat (peek b)) 4) (\<lambda>cs.
     Inr (le_word cs)))"

definition peekInt16 :: "Buffer \<Rightarrow> error + 16 word" where
  "peekInt16 b =
     and_then (assert (readableBytes b \<ge> 2)) (\<lambda>_.
     and_then (mem_read (buffer b) (unat (peek b)) 2) (\<lambda>cs.
     Inr (le_word cs)))"

definition peekInt8 :: "Buffer \<Rightarrow> error + 8 word" where
  "peekInt8 b =
     and_then (assert (readableBytes b \<ge> 1)) (\<lambda>_.
     and_then (mem_read (buffer b) (unat (peek b)) 1) (\<lambda>cs.
     Inr (le_word cs)))"

subsection \<open>Prepending\<close>

definition prepend :: "byte list \<Rightarrow> size_t \<Rightarrow> Buffer \<Rightarrow> error + Buffer" where
  "prepend data len b =
     and_then (assert (len \<le> prependableBytes b)) (\<lambda>_.
     let b1 = b\<lparr>readerIndex := readerIndex b - len\<rparr> in
     and_then (mem_read data 0 (unat len)) (\<lambda>d.
     and_then (mem_write (buffer b1) (unat (readerIndex b1)) d) (\<lambda>m.
     Inr (b1\<lparr>buffer := m\<rparr>))))"

text \<open>
  \<^verbatim>\<open>prependInt32\<close> and \<^verbatim>\<open>prependInt16\<close> pass \<^verbatim>\<open>&be32\<close> and \<^verbatim>\<open>&be16\<close>, names that
  neither the function nor the class declares; the argument \<^verbatim>\<open>x\<close> is not used. The
  model takes the value found under that name as a further argument, of the width the
  name and the function announce.
\<close>

definition prependInt32 :: "32 word \<Rightarrow> 32 word \<Rightarrow> Buffer \<Rightarrow> error + Buffer" where
  "prependInt32 be32 x b = prepend (le_bytes 4 be32) 4 b"

definition prependInt16 :: "16 word \<Rightarrow> 16 word \<Rightarrow> Buffer \<Rightarrow> error + Buffer" where
  "prependInt16 be16 x b = prepend (le_bytes 2 be16) 2 b"

definition prependInt8 :: "8 word \<Rightarrow> Buffer \<Rightarrow> error + Buffer" where
  "prependInt8 x b = prepend (le_bytes 1 x) 1 b"

subsection \<open>Retrieving\<close>

definition retrieveAll :: "Buffer \<Rightarrow> Buffer" where
  "retrieveAll b = b\<lparr>readerIndex := kCheapPrepend, writerIndex := kCheapPrepend\<rparr>"

definition retrieve :: "size_t \<Rightarrow> Buffer \<Rightarrow> error + Buffer" where
  "retrieve len b =
     and_then (assert (len \<le> readableBytes b)) (\<lambda>_.
     if len < readableBytes b then Inr (b\<lparr>readerIndex := readerIndex b + len\<rparr>)
     else Inr (retrieveAll b))"

definition retrieveUntil :: "size_t \<Rightarrow> Buffer \<Rightarrow> error + Buffer" where
  "retrieveUntil end b =
     and_then (assert (peek b \<le> end)) (\<lambda>_.
     and_then (assert (end \<le> beginWrite b)) (\<lambda>_.
     retrieve (end - peek b) b))"

definition retrieveInt64 :: "Buffer \<Rightarrow> error + Buffer" where
  "retrieveInt64 b = retrieve 8 b"

definition retrieveInt32 :: "Buffer \<Rightarrow> error + Buffer" where
  "retrieveInt32 b = retrieve 4 b"

definition retrieveInt16 :: "Buffer \<Rightarrow> error + Buffer" where
  "retrieveInt16 b = retrieve 2 b"

definition retrieveInt8 :: "Buffer \<Rightarrow> error + Buffer" where
  "retrieveInt8 b = retrieve 1 b"

definition retrieveAsString :: "size_t \<Rightarrow> Buffer \<Rightarrow> error + (byte list \<times> Buffer)" where
  "retrieveAsString len b =
     and_then (assert (len \<le> readableBytes b)) (\<lambda>_.
     and_then (mem_read (buffer b) (unat (peek b)) (unat len)) (\<lambda>result.
     and_then (retrieve len b) (\<lambda>b'.
     Inr (result, b'))))"

definition retrieveAllAsString :: "Buffer \<Rightarrow> error + (byte list \<times> Buffer)" where
  "retrieveAllAsString b = retrieveAsString (readableBytes b) b"

subsection \<open>Growing and appending\<close>

definition hasWritten :: "size_t \<Rightarrow> Buffer \<Rightarrow> error + Buffer" where
  "hasWritten len b =
     and_then (assert (len \<le> writableBytes b)) (\<lambda>_.
     Inr (b\<lparr>writerIndex := writerIndex b + len\<rparr>))"

definition unwrite :: "size_t \<Rightarrow> Buffer \<Rightarrow> error + Buffer" where
  "unwrite len b =
     and_then (assert (len \<le> readableBytes b)) (\<lambda>_.
     Inr (b\<lparr>writerIndex := writerIndex b - len\<rparr>))"

definition makeSpace :: "size_t \<Rightarrow> Buffer \<Rightarrow> error + Buffer" where
  "makeSpace len b =
     (if writableBytes b + prependableBytes b < len + kCheapPrepend
      then Inr (b\<lparr>buffer := vec_resize (buffer b) (writerIndex b + len)\<rparr>)
      else
        and_then (assert (kCheapPrepend < readerIndex b)) (\<lambda>_.
        let readable = readableBytes b in
        and_then (mem_range (buffer b) (unat (readerIndex b)) (unat (writerIndex b))) (\<lambda>d.
        and_then (mem_write (buffer b) (unat kCheapPrepend) d) (\<lambda>m.
        let b1 = b\<lparr>buffer := m, readerIndex := kCheapPrepend\<rparr>;
            b2 = b1\<lparr>writerIndex := readerIndex b1 + readable\<rparr>
        in and_then (assert (readable = readableBytes b2)) (\<lambda>_.
           Inr b2)))))"

definition ensureWritableBytes :: "size_t \<Rightarrow> Buffer \<Rightarrow> error + Buffer" where
  "ensureWritableBytes len b =
     and_then (if writableBytes b < len then makeSpace len b else Inr b) (\<lambda>b'.
     and_then (assert (writableBytes b' \<ge> len)) (\<lambda>_.
     Inr b'))"

definition append :: "byte list \<Rightarrow> size_t \<Rightarrow> Buffer \<Rightarrow> error + Buffer" where
  "append data len b =
     and_then (ensureWritableBytes len b) (\<lambda>b1.
     and_then (mem_read data 0 (unat len)) (\<lambda>d.
     and_then (mem_write (buffer b1) (unat (beginWrite b1)) d) (\<lambda>m.
     hasWritten len (b1\<lparr>buffer := m\<rparr>))))"

definition appendInt64 :: "64 word \<Rightarrow> Buffer \<Rightarrow> error + Buffer" where
  "appendInt64 x b = append (le_bytes 8 x) 8 b"

definition appendInt32 :: "32 word \<Rightarrow> Buffer \<Rightarrow> error + Buffer" where
  "appendInt32 x b = append (le_bytes 4 x) 4 b"

definition appendInt16 :: "16 word \<Rightarrow> Buffer \<Rightarrow> error + Buffer" where
  "appendInt16 x b = append (le_bytes 2 x) 2 b"

definition appendInt8 :: "8 word \<Rightarrow> Buffer \<Rightarrow> error + Buffer" where
  "appendInt8 x b = append (le_bytes 1 x) 1 b"

text \<open>
  \<^verbatim>\<open>shrink\<close> calls \<^verbatim>\<open>other.append(peek(),)\<close>: the length is left blank in the source.
  The model takes it as the argument \<open>n\<close>. The bytes at \<^verbatim>\<open>peek()\<close> are those of the
  storage from \<open>readerIndex\<close> on.
\<close>

definition shrink :: "size_t \<Rightarrow> size_t \<Rightarrow> Buffer \<Rightarrow> error + Buffer" where
  "shrink n reserve b =
     and_then (new_Buffer kInitialSize) (\<lambda>other.
     and_then (ensureWritableBytes (readableBytes b + reserve) other) (\<lambda>other1.
     and_then (append (drop (unat (peek b)) (buffer b)) n other1) (\<lambda>other2.
     Inr (fst (swap b other2)))))"

section \<open>Invariants and observations\<close>

text \<open>
  \<open>I1\<close> is the invariant of the class comment, \<^verbatim>\<open>0 <= readerIndex <= writerIndex <= size\<close>
  (the first inequality is immediate for an unsigned cursor). \<open>vec_ok\<close> says that the
  length of the storage is a \<^verbatim>\<open>size_t\<close>, which every \<^verbatim>\<open>std::vector\<close> satisfies.
  \<open>inv\<close> adds that the storage holds the cheap-prepend zone. \<open>content\<close> is the readable
  region as a byte sequence.
\<close>

definition I1 :: "Buffer \<Rightarrow> bool" where
  "I1 b \<longleftrightarrow> readerIndex b \<le> writerIndex b \<and> unat (writerIndex b) \<le> length (buffer b)"

definition vec_ok :: "Buffer \<Rightarrow> bool" where
  "vec_ok b \<longleftrightarrow> length (buffer b) < 2 ^ 64"

definition inv :: "Buffer \<Rightarrow> bool" where
  "inv b \<longleftrightarrow> I1 b \<and> vec_ok b \<and> unat kCheapPrepend \<le> length (buffer b)"

definition content :: "Buffer \<Rightarrow> byte list" where
  "content b =
     take (unat (writerIndex b) - unat (readerIndex b)) (drop (unat (readerIndex b)) (buffer b))"

text \<open>
  The two sums that \<^verbatim>\<open>ensureWritableBytes(len)\<close> may compute, \<^verbatim>\<open>writerIndex_ + len\<close> and
  \<^verbatim>\<open>len + kCheapPrepend\<close>, stay below \<open>2 ^ 64\<close>.
\<close>

definition no_overflow :: "size_t \<Rightarrow> Buffer \<Rightarrow> bool" where
  "no_overflow len b \<longleftrightarrow>
     unat (writerIndex b) + unat len < 2 ^ 64 \<and> unat len + unat kCheapPrepend < 2 ^ 64"

section \<open>Sequences of calls\<close>

text \<open>
  One constructor per public mutating member function, with the arguments of the call.
  \<open>PrependInt32\<close> and \<open>PrependInt16\<close> carry the value of \<^verbatim>\<open>be32\<close> and \<^verbatim>\<open>be16\<close> first,
  \<open>Shrink\<close> the blank length first, \<open>Swap\<close> the other buffer. The string that
  \<^verbatim>\<open>retrieveAsString\<close> returns is dropped by \<open>step\<close>, which follows the buffer only.
\<close>

datatype op =
    Append "byte list" size_t
  | AppendInt64 "64 word"
  | AppendInt32 "32 word"
  | AppendInt16 "16 word"
  | AppendInt8 "8 word"
  | Prepend "byte list" size_t
  | PrependInt32 "32 word" "32 word"
  | PrependInt16 "16 word" "16 word"
  | PrependInt8 "8 word"
  | Retrieve size_t
  | RetrieveUntil size_t
  | RetrieveInt64
  | RetrieveInt32
  | RetrieveInt16
  | RetrieveInt8
  | RetrieveAll
  | RetrieveAsString size_t
  | RetrieveAllAsString
  | HasWritten size_t
  | Unwrite size_t
  | EnsureWritableBytes size_t
  | Shrink size_t size_t
  | Swap Buffer

fun step :: "op \<Rightarrow> Buffer \<Rightarrow> error + Buffer" where
  "step (Append data len) b = append data len b"
| "step (AppendInt64 x) b = appendInt64 x b"
| "step (AppendInt32 x) b = appendInt32 x b"
| "step (AppendInt16 x) b = appendInt16 x b"
| "step (AppendInt8 x) b = appendInt8 x b"
| "step (Prepend data len) b = prepend data len b"
| "step (PrependInt32 be32 x) b = prependInt32 be32 x b"
| "step (PrependInt16 be16 x) b = prependInt16 be16 x b"
| "step (PrependInt8 x) b = prependInt8 x b"
| "step (Retrieve len) b = retrieve len b"
| "step (RetrieveUntil end) b = retrieveUntil end b"
| "step RetrieveInt64 b = retrieveInt64 b"
| "step RetrieveInt32 b = retrieveInt32 b"
| "step RetrieveInt16 b = retrieveInt16 b"
| "step RetrieveInt8 b = retrieveInt8 b"
| "step RetrieveAll b = Inr (retrieveAll b)"
| "step (RetrieveAsString len) b = and_then (retrieveAsString len b) (\<lambda>res. Inr (snd res))"
| "step RetrieveAllAsString b = and_then (retrieveAllAsString b) (\<lambda>res. Inr (snd res))"
| "step (HasWritten len) b = hasWritten len b"
| "step (Unwrite len) b = unwrite len b"
| "step (EnsureWritableBytes len) b = ensureWritableBytes len b"
| "step (Shrink n reserve) b = shrink n reserve b"
| "step (Swap rhs) b = Inr (fst (swap b rhs))"

text \<open>
  \<open>pre c b\<close>: the call \<open>c\<close> is made in state \<open>b\<close> with the precondition that the
  function asserts; a \<^verbatim>\<open>data\<close> pointer has the \<^verbatim>\<open>len\<close> bytes that are read from it; the
  sizes of a growing call do not wrap (\<open>no_overflow\<close>; for \<^verbatim>\<open>shrink\<close>, the sum
  \<^verbatim>\<open>readableBytes() + reserve\<close> and the cheap-prepend zone on top of it); the blank length
  of \<^verbatim>\<open>shrink\<close> is at most the readable bytes; the buffer swapped in is itself in order.
\<close>

fun pre :: "op \<Rightarrow> Buffer \<Rightarrow> bool" where
  "pre (Append data len) b = (unat len \<le> length data \<and> no_overflow len b)"
| "pre (AppendInt64 x) b = no_overflow 8 b"
| "pre (AppendInt32 x) b = no_overflow 4 b"
| "pre (AppendInt16 x) b = no_overflow 2 b"
| "pre (AppendInt8 x) b = no_overflow 1 b"
| "pre (Prepend data len) b = (unat len \<le> length data \<and> len \<le> prependableBytes b)"
| "pre (PrependInt32 be32 x) b = (4 \<le> prependableBytes b)"
| "pre (PrependInt16 be16 x) b = (2 \<le> prependableBytes b)"
| "pre (PrependInt8 x) b = (1 \<le> prependableBytes b)"
| "pre (Retrieve len) b = (len \<le> readableBytes b)"
| "pre (RetrieveUntil end) b = (peek b \<le> end \<and> end \<le> beginWrite b)"
| "pre RetrieveInt64 b = (8 \<le> readableBytes b)"
| "pre RetrieveInt32 b = (4 \<le> readableBytes b)"
| "pre RetrieveInt16 b = (2 \<le> readableBytes b)"
| "pre RetrieveInt8 b = (1 \<le> readableBytes b)"
| "pre RetrieveAll b = True"
| "pre (RetrieveAsString len) b = (len \<le> readableBytes b)"
| "pre RetrieveAllAsString b = True"
| "pre (HasWritten len) b = (len \<le> writableBytes b)"
| "pre (Unwrite len) b = (len \<le> readableBytes b)"
| "pre (EnsureWritableBytes len) b = no_overflow len b"
| "pre (Shrink n reserve) b =
     (n \<le> readableBytes b \<and>
      unat (readableBytes b) + unat reserve + unat kCheapPrepend < 2 ^ 64)"
| "pre (Swap rhs) b = inv rhs"

text \<open>
  \<open>run\<close> makes the calls in order and stops at the first failure; \<open>trace\<close> lists the
  states after each call; \<open>valid cs b\<close> says that every call of \<open>cs\<close> that is reached
  from \<open>b\<close> is made with its precondition.
\<close>

fun run :: "op list \<Rightarrow> Buffer \<Rightarrow> error + Buffer" where
  "run [] b = Inr b"
| "run (c # cs) b = and_then (step c b) (run cs)"

fun trace :: "op list \<Rightarrow> Buffer \<Rightarrow> Buffer list" where
  "trace [] b = []"
| "trace (c # cs) b = (case step c b of Inl e \<Rightarrow> [] | Inr b' \<Rightarrow> b' # trace cs b')"

fun valid :: "op list \<Rightarrow> Buffer \<Rightarrow> bool" where
  "valid [] b = True"
| "valid (c # cs) b = (pre c b \<and> (case step c b of Inl e \<Rightarrow> True | Inr b' \<Rightarrow> valid cs b'))"

section \<open>Example buffers\<close>

text \<open>
  Concrete states for the examples below, all with small storages except the default ones.
\<close>

abbreviation buf_new8 :: Buffer where \<comment> \<open>the buffer that \<^verbatim>\<open>Buffer(8)\<close> constructs\<close>
  "buf_new8 \<equiv>
     \<lparr>buffer = [0,0,0,0,0,0,0,0,0,0,0,0,0,0,0,0], readerIndex = 8, writerIndex = 8\<rparr>"

abbreviation buf_grown :: Buffer where \<comment> \<open>the same after its storage has grown to 18 bytes\<close>
  "buf_grown \<equiv>
     \<lparr>buffer = [0,0,0,0,0,0,0,0,0,0,0,0,0,0,0,0,0,0], readerIndex = 8, writerIndex = 8\<rparr>"

abbreviation buf_one :: Buffer where \<comment> \<open>one byte appended\<close>
  "buf_one \<equiv>
     \<lparr>buffer = [0,0,0,0,0,0,0,0,1,0,0,0,0,0,0,0], readerIndex = 8, writerIndex = 9\<rparr>"

abbreviation buf_two :: Buffer where \<comment> \<open>two bytes appended\<close>
  "buf_two \<equiv>
     \<lparr>buffer = [0,0,0,0,0,0,0,0,1,2,0,0,0,0,0,0], readerIndex = 8, writerIndex = 10\<rparr>"

abbreviation buf_two_read :: Buffer where \<comment> \<open>two bytes appended, one retrieved\<close>
  "buf_two_read \<equiv>
     \<lparr>buffer = [0,0,0,0,0,0,0,0,1,2,0,0,0,0,0,0], readerIndex = 9, writerIndex = 10\<rparr>"

abbreviation buf_six :: Buffer where \<comment> \<open>six bytes appended\<close>
  "buf_six \<equiv>
     \<lparr>buffer = [0,0,0,0,0,0,0,0,1,2,3,4,5,6,0,0], readerIndex = 8, writerIndex = 14\<rparr>"

abbreviation buf_six_read :: Buffer where \<comment> \<open>six bytes appended, two retrieved\<close>
  "buf_six_read \<equiv>
     \<lparr>buffer = [0,0,0,0,0,0,0,0,1,2,3,4,5,6,0,0], readerIndex = 10, writerIndex = 14\<rparr>"

abbreviation buf_six_reset :: Buffer where \<comment> \<open>six bytes appended, all retrieved\<close>
  "buf_six_reset \<equiv>
     \<lparr>buffer = [0,0,0,0,0,0,0,0,1,2,3,4,5,6,0,0], readerIndex = 8, writerIndex = 8\<rparr>"

abbreviation buf_compacted :: Buffer where \<comment> \<open>the four readable bytes moved down\<close>
  "buf_compacted \<equiv>
     \<lparr>buffer = [0,0,0,0,0,0,0,0,3,4,5,6,5,6,0,0], readerIndex = 8, writerIndex = 12\<rparr>"

abbreviation buf_eight :: Buffer where \<comment> \<open>eight bytes appended\<close>
  "buf_eight \<equiv>
     \<lparr>buffer = [0,0,0,0,0,0,0,0,1,2,3,4,5,6,7,8], readerIndex = 8, writerIndex = 16\<rparr>"

abbreviation buf_three :: Buffer where \<comment> \<open>three readable bytes in a storage of twelve\<close>
  "buf_three \<equiv>
     \<lparr>buffer = [0,0,0,0,0,0,0,0,1,2,3,0], readerIndex = 8, writerIndex = 11\<rparr>"

abbreviation buf_three_hdr :: Buffer where \<comment> \<open>the same with two bytes prepended\<close>
  "buf_three_hdr \<equiv>
     \<lparr>buffer = [0,0,0,0,0,0,7,9,1,2,3,0], readerIndex = 6, writerIndex = 11\<rparr>"

abbreviation buf_three_shrunk :: Buffer where \<comment> \<open>three readable bytes in a default-sized storage\<close>
  "buf_three_shrunk \<equiv>
     \<lparr>buffer = replicate 8 0 @ [1, 2, 3] @ replicate 1021 0, readerIndex = 8, writerIndex = 11\<rparr>"

abbreviation buf_three_shrunk_reset :: Buffer where \<comment> \<open>the same, all retrieved\<close>
  "buf_three_shrunk_reset \<equiv>
     \<lparr>buffer = replicate 8 0 @ [1, 2, 3] @ replicate 1021 0, readerIndex = 8, writerIndex = 8\<rparr>"

abbreviation buf_default :: Buffer where \<comment> \<open>the buffer that \<^verbatim>\<open>Buffer()\<close> constructs\<close>
  "buf_default \<equiv>
     \<lparr>buffer = replicate 1032 0, readerIndex = 8, writerIndex = 8\<rparr>"

abbreviation buf_hello :: Buffer where \<comment> \<open>"hello" appended to it\<close>
  "buf_hello \<equiv>
     \<lparr>buffer = replicate 8 0 @ [104, 101, 108, 108, 111] @ replicate 1019 0, readerIndex = 8, writerIndex = 13\<rparr>"

abbreviation buf_hello_hdr :: Buffer where \<comment> \<open>the four bytes of the integer 7 prepended to that\<close>
  "buf_hello_hdr \<equiv>
     \<lparr>buffer = replicate 4 0 @ [7, 0, 0, 0] @ [104, 101, 108, 108, 111] @ replicate 1019 0, readerIndex = 4, writerIndex = 13\<rparr>"

abbreviation buf_wrapped :: Buffer where \<comment> \<open>cursors left behind by a resize to zero bytes\<close>
  "buf_wrapped \<equiv>
     \<lparr>buffer = [], readerIndex = 8, writerIndex = 9\<rparr>"

abbreviation buf_max :: Buffer where \<comment> \<open>what \<^verbatim>\<open>Buffer(SIZE_MAX)\<close> constructs: seven bytes of storage\<close>
  "buf_max \<equiv>
     \<lparr>buffer = replicate 7 0, readerIndex = 8, writerIndex = 8\<rparr>"

abbreviation example_calls :: "op list" where
  "example_calls \<equiv>
     [Append [1,2,3,4,5,6] 6, Retrieve 2, EnsureWritableBytes 3, PrependInt8 9, HasWritten 1,
      Unwrite 1, RetrieveAsString 1, AppendInt16 515, RetrieveUntil 10, PrependInt32 7 5,
      RetrieveInt32, Swap buf_three, Shrink 3 0, RetrieveAll]"

section \<open>Basic facts\<close>

subsection \<open>Sequencing and memory\<close>

lemma and_then_simps [simp]:
  "and_then (Inr x) f = f x" "and_then (Inl e) f = Inl e"
  by (simp_all add: and_then_def)

lemma and_then_assert [simp]: "and_then (assert c) f = (if c then f () else Inl AssertionFailed)"
  by (simp add: assert_def)

lemma mem_read_ok: "p + n \<le> length m \<Longrightarrow> mem_read m p n = Inr (take n (drop p m))"
  by (simp add: mem_read_def)

lemma mem_write_ok:
  "p + length d \<le> length m \<Longrightarrow> mem_write m p d = Inr (take p m @ d @ drop (p + length d) m)"
  by (simp add: mem_write_def)

lemma unat_vec_size: "vec_ok b \<Longrightarrow> unat (vec_size (buffer b)) = length (buffer b)"
  by (simp add: vec_ok_def vec_size_def unat_of_nat)

lemma unat_readable: "I1 b \<Longrightarrow> unat (readableBytes b) = unat (writerIndex b) - unat (readerIndex b)"
  by (simp add: I1_def readableBytes_def unat_sub)

lemma unat_writable:
  assumes "I1 b" "vec_ok b"
  shows "unat (writableBytes b) = length (buffer b) - unat (writerIndex b)"
proof -
  have "writerIndex b \<le> vec_size (buffer b)"
    using assms by (simp add: I1_def word_le_nat_alt unat_vec_size)
  then show ?thesis
    using assms by (simp add: writableBytes_def unat_sub unat_vec_size)
qed

lemma unat_kCheapPrepend [simp]: "unat kCheapPrepend = 8"
  by (simp add: kCheapPrepend_def)

lemma makeSpace_grow:
  assumes inv: "I1 b" "vec_ok b" and nov: "no_overflow len b"
    and short: "writableBytes b < len"
    and cond: "writableBytes b + prependableBytes b < len + kCheapPrepend"
  shows "makeSpace len b =
           Inr (b\<lparr>buffer := buffer b @ replicate (unat (writerIndex b) + unat len - length (buffer b)) 0\<rparr>)"
    and "length (buffer b) < unat (writerIndex b) + unat len"
proof -
  have w: "unat (writableBytes b) = length (buffer b) - unat (writerIndex b)"
    using inv by (rule unat_writable)
  have sum: "unat (writerIndex b + len) = unat (writerIndex b) + unat len"
    using nov by (simp add: no_overflow_def unat_add_lem [THEN iffD1])
  show lt: "length (buffer b) < unat (writerIndex b) + unat len"
    using short w inv by (simp add: word_less_nat_alt I1_def)
  then show "makeSpace len b =
           Inr (b\<lparr>buffer := buffer b @ replicate (unat (writerIndex b) + unat len - length (buffer b)) 0\<rparr>)"
    using cond by (simp add: makeSpace_def vec_resize_def sum)
qed

lemma makeSpace_compact:
  assumes inv: "I1 b" "vec_ok b" and nov: "no_overflow len b"
    and short: "writableBytes b < len"
    and cond: "\<not> writableBytes b + prependableBytes b < len + kCheapPrepend"
  shows "makeSpace len b =
           Inr (b\<lparr>buffer := take 8 (buffer b) @ content b @
                     drop (8 + (unat (writerIndex b) - unat (readerIndex b))) (buffer b),
                  readerIndex := kCheapPrepend,
                  writerIndex := kCheapPrepend + readableBytes b\<rparr>)"
    and "kCheapPrepend < readerIndex b"
    and "unat (kCheapPrepend + readableBytes b) = 8 + (unat (writerIndex b) - unat (readerIndex b))"
    and "unat len + 8 \<le> length (buffer b) - unat (writerIndex b) + unat (readerIndex b)"
proof -
  let ?r = "unat (readerIndex b)" and ?w = "unat (writerIndex b)" and ?L = "length (buffer b)"
  have rw: "?r \<le> ?w" "?w \<le> ?L" "?L < 2 ^ 64"
    using inv by (simp_all add: I1_def vec_ok_def word_le_nat_alt)
  have w: "unat (writableBytes b) = ?L - ?w"
    using inv by (rule unat_writable)
  have rd: "unat (readableBytes b) = ?w - ?r"
    using inv(1) by (rule unat_readable)
  have l8: "unat (len + kCheapPrepend) = unat len + 8"
    using nov by (simp add: no_overflow_def unat_add_lem [THEN iffD1])
  have "unat (writableBytes b) + unat (prependableBytes b) < 2 ^ 64"
    using rw w by (simp add: prependableBytes_def)
  then have wp: "unat (writableBytes b + prependableBytes b) = (?L - ?w) + ?r"
    using w by (simp add: unat_add_lem [THEN iffD1] prependableBytes_def)
  show room: "unat len + 8 \<le> ?L - ?w + ?r"
    using cond wp l8 by (simp add: word_less_nat_alt)
  have short': "?L - ?w < unat len"
    using short w by (simp add: word_less_nat_alt)
  show r8: "kCheapPrepend < readerIndex b"
    using room short' by (simp add: word_less_nat_alt)
  have "8 + (?w - ?r) < 2 ^ 64" using rw r8 by (simp add: word_less_nat_alt)
  then show w': "unat (kCheapPrepend + readableBytes b) = 8 + (?w - ?r)"
    using rd by (simp add: unat_add_lem [THEN iffD1])
  have rd_ok: "mem_range (buffer b) ?r ?w = Inr (content b)"
    using rw by (simp add: mem_range_def mem_read_ok content_def)
  have len_c: "length (content b) = ?w - ?r"
    using rw by (simp add: content_def)
  have "8 < ?r" using r8 by (simp add: word_less_nat_alt)
  then have wr_ok: "mem_write (buffer b) 8 (content b) =
        Inr (take 8 (buffer b) @ content b @ drop (8 + (?w - ?r)) (buffer b))"
    using rw len_c by (simp add: mem_write_ok)
  show "makeSpace len b =
           Inr (b\<lparr>buffer := take 8 (buffer b) @ content b @ drop (8 + (?w - ?r)) (buffer b),
                  readerIndex := kCheapPrepend,
                  writerIndex := kCheapPrepend + readableBytes b\<rparr>)"
    using cond r8 rd_ok wr_ok by (simp add: makeSpace_def Let_def readableBytes_def)
qed

lemma content_length: "I1 b \<Longrightarrow> length (content b) = unat (writerIndex b) - unat (readerIndex b)"
  unfolding content_def I1_def word_le_nat_alt by simp arith

lemma ensureWritableBytes_enough:
  assumes "\<not> writableBytes b < len"
  shows "ensureWritableBytes len b = Inr b"
proof -
  from assms have "len \<le> writableBytes b" by simp
  with assms show ?thesis by (simp add: ensureWritableBytes_def)
qed

lemma ensureWritableBytes_grow:
  assumes inv: "I1 b" "vec_ok b" and nov: "no_overflow len b"
    and short: "writableBytes b < len"
    and cond: "writableBytes b + prependableBytes b < len + kCheapPrepend"
  shows "ensureWritableBytes len b =
           Inr (b\<lparr>buffer := buffer b @ replicate (unat (writerIndex b) + unat len - length (buffer b)) 0\<rparr>)"
proof -
  let ?b' = "b\<lparr>buffer := buffer b @ replicate (unat (writerIndex b) + unat len - length (buffer b)) 0\<rparr>"
  note ms = makeSpace_grow [OF inv nov short cond]
  have len': "length (buffer ?b') = unat (writerIndex b) + unat len"
    using ms(2) by simp
  then have "vec_ok ?b'" "I1 ?b'"
    using nov inv(1) by (simp_all add: vec_ok_def no_overflow_def I1_def)
  then have "unat (writableBytes ?b') = unat len"
    using len' by (simp add: unat_writable)
  then have "len \<le> writableBytes ?b'"
    by (simp add: word_le_nat_alt)
  then show ?thesis
    using ms(1) short by (simp add: ensureWritableBytes_def)
qed

lemma ensureWritableBytes_compact:
  assumes inv: "I1 b" "vec_ok b" and nov: "no_overflow len b"
    and short: "writableBytes b < len"
    and cond: "\<not> writableBytes b + prependableBytes b < len + kCheapPrepend"
  shows "ensureWritableBytes len b =
           Inr (b\<lparr>buffer := take 8 (buffer b) @ content b @
                     drop (8 + (unat (writerIndex b) - unat (readerIndex b))) (buffer b),
                  readerIndex := kCheapPrepend,
                  writerIndex := kCheapPrepend + readableBytes b\<rparr>)"
proof -
  let ?r = "unat (readerIndex b)" and ?w = "unat (writerIndex b)" and ?L = "length (buffer b)"
  let ?b' = "b\<lparr>buffer := take 8 (buffer b) @ content b @ drop (8 + (?w - ?r)) (buffer b),
                  readerIndex := kCheapPrepend,
                  writerIndex := kCheapPrepend + readableBytes b\<rparr>"
  note ms = makeSpace_compact [OF inv nov short cond]
  have rw: "?r \<le> ?w" "?w \<le> ?L" "?L < 2 ^ 64"
    using inv by (simp_all add: I1_def vec_ok_def word_le_nat_alt)
  have r8: "8 < ?r"
    using ms(2) by (simp add: word_less_nat_alt)
  have len': "length (buffer ?b') = ?L"
    using rw r8 by (simp add: content_length [OF inv(1)])
  have "vec_ok ?b'"
    using len' inv(2) by (simp add: vec_ok_def)
  moreover have "I1 ?b'"
  proof -
    have "8 \<le> 8 + (?w - ?r)" "8 + (?w - ?r) \<le> ?L"
      using rw r8 by arith+
    then show ?thesis
      using ms(3) len' by (simp add: I1_def word_le_nat_alt)
  qed
  ultimately have "unat (writableBytes ?b') = ?L - (8 + (?w - ?r))"
    using len' ms(3) by (simp add: unat_writable)
  then have "len \<le> writableBytes ?b'"
    using ms(4) rw r8 by (simp add: word_le_nat_alt)
  then show ?thesis
    using ms(1) short by (simp add: ensureWritableBytes_def)
qed

lemma content_compact:
  assumes "I1 b" "8 < unat (readerIndex b)"
    "unat (kCheapPrepend + readableBytes b) = 8 + (unat (writerIndex b) - unat (readerIndex b))"
  shows "content (b\<lparr>buffer := take 8 (buffer b) @ content b @
                     drop (8 + (unat (writerIndex b) - unat (readerIndex b))) (buffer b),
                  readerIndex := kCheapPrepend,
                  writerIndex := kCheapPrepend + readableBytes b\<rparr>) = content b"
  using assms content_length [OF assms(1)]
  by (simp add: content_def [of "b\<lparr>buffer := _, readerIndex := _, writerIndex := _\<rparr>"] I1_def word_le_nat_alt)

lemma content_grow:
  assumes "I1 b"
  shows "content (b\<lparr>buffer := buffer b @ xs\<rparr>) = content b"
  using assms by (simp add: content_def I1_def word_le_nat_alt)

lemma ensureWritableBytes_cases:
  assumes inv: "I1 b" "vec_ok b" and nov: "no_overflow n b"
  shows "\<exists>b'. ensureWritableBytes n b = Inr b' \<and> n \<le> writableBytes b' \<and> I1 b' \<and> vec_ok b' \<and>
           content b' = content b \<and> readableBytes b' = readableBytes b \<and>
           length (buffer b) \<le> length (buffer b') \<and>
           (n \<le> writableBytes b \<longrightarrow> b' = b) \<and>
           (writableBytes b < n \<and> writableBytes b + prependableBytes b < n + kCheapPrepend \<longrightarrow>
              readerIndex b' = readerIndex b \<and> writerIndex b' = writerIndex b \<and>
              take (length (buffer b)) (buffer b') = buffer b \<and>
              length (buffer b') = unat (writerIndex b) + unat n) \<and>
           (writableBytes b < n \<and> \<not> writableBytes b + prependableBytes b < n + kCheapPrepend \<longrightarrow>
              kCheapPrepend < readerIndex b \<and> readerIndex b' = kCheapPrepend \<and>
              length (buffer b') = length (buffer b))"
proof (cases "writableBytes b < n")
  case False
  then have "ensureWritableBytes n b = Inr b" "n \<le> writableBytes b"
    by (simp_all add: ensureWritableBytes_enough)
  with inv False show ?thesis by simp
next
  case short: True
  then have ns: "\<not> n \<le> writableBytes b" by simp
  let ?r = "unat (readerIndex b)" and ?w = "unat (writerIndex b)" and ?L = "length (buffer b)"
  have rw: "?r \<le> ?w" "?w \<le> ?L" "?L < 2 ^ 64"
    using inv by (simp_all add: I1_def vec_ok_def word_le_nat_alt)
  show ?thesis
  proof (cases "writableBytes b + prependableBytes b < n + kCheapPrepend")
    case True
    let ?b' = "b\<lparr>buffer := buffer b @ replicate (?w + unat n - ?L) 0\<rparr>"
    note ms = makeSpace_grow [OF inv nov short True]
    have e: "ensureWritableBytes n b = Inr ?b'"
      by (rule ensureWritableBytes_grow [OF inv nov short True])
    have len': "length (buffer ?b') = ?w + unat n"
      using ms(2) by simp
    then have ok: "vec_ok ?b'" "I1 ?b'"
      using nov inv(1) by (simp_all add: vec_ok_def no_overflow_def I1_def)
    have "unat (writableBytes ?b') = length (buffer ?b') - unat (writerIndex ?b')"
      by (rule unat_writable [OF ok(2,1)])
    then have "n \<le> writableBytes ?b'"
      using ms(2) by (simp add: word_le_nat_alt)
    with e ok content_grow [OF inv(1)] len' ms(2) short ns True show ?thesis
      by (intro exI [of _ ?b']) (simp add: readableBytes_def)
  next
    case False
    let ?b' = "b\<lparr>buffer := take 8 (buffer b) @ content b @ drop (8 + (?w - ?r)) (buffer b),
                  readerIndex := kCheapPrepend,
                  writerIndex := kCheapPrepend + readableBytes b\<rparr>"
    note ms = makeSpace_compact [OF inv nov short False]
    have e: "ensureWritableBytes n b = Inr ?b'"
      by (rule ensureWritableBytes_compact [OF inv nov short False])
    have r8: "8 < ?r"
      using ms(2) by (simp add: word_less_nat_alt)
    have len': "length (buffer ?b') = ?L"
      using rw r8 by (simp add: content_length [OF inv(1)])
    have v: "vec_ok ?b'"
      using len' inv(2) by (simp add: vec_ok_def)
    have i: "I1 ?b'"
    proof -
      have "8 \<le> 8 + (?w - ?r)" "8 + (?w - ?r) \<le> ?L"
        using rw r8 by arith+
      then show ?thesis
        using ms(3) len' by (simp add: I1_def word_le_nat_alt)
    qed
    have "unat (writableBytes ?b') = length (buffer ?b') - unat (writerIndex ?b')"
      by (rule unat_writable [OF i v])
    then have en: "n \<le> writableBytes ?b'"
      using ms(3,4) rw r8 len' by (simp add: word_le_nat_alt)
    have c: "content ?b' = content b"
      by (rule content_compact [OF inv(1) r8 ms(3)])
    have rb: "readableBytes ?b' = readableBytes b"
      by (simp add: readableBytes_def)
    from e v i en c len' rb ms(2) short ns False show ?thesis
      by (intro exI [of _ ?b']) simp
  qed
qed

lemma ensureWritableBytes_ok:
  assumes inv: "I1 b" "vec_ok b" and nov: "no_overflow len b"
  obtains b' where "ensureWritableBytes len b = Inr b'" "I1 b'" "vec_ok b'"
    "len \<le> writableBytes b'" "content b' = content b"
    "length (buffer b) \<le> length (buffer b')"
  using ensureWritableBytes_cases [OF inv nov] by blast

lemma append_ok:
  assumes inv: "I1 b" "vec_ok b" and nov: "no_overflow len b"
    and data: "unat len \<le> length data"
  obtains b' where "append data len b = Inr b'" "I1 b'" "vec_ok b'"
    "content b' = content b @ take (unat len) data"
    "length (buffer b) \<le> length (buffer b')"
proof -
  obtain b1 where b1: "ensureWritableBytes len b = Inr b1" "I1 b1" "vec_ok b1"
    "len \<le> writableBytes b1" "content b1 = content b"
    "length (buffer b) \<le> length (buffer b1)"
    using ensureWritableBytes_ok [OF inv nov] by blast
  let ?r = "unat (readerIndex b1)" and ?w = "unat (writerIndex b1)" and ?L = "length (buffer b1)"
  let ?d = "take (unat len) data"
  have rw: "?r \<le> ?w" "?w \<le> ?L" "?L < 2 ^ 64"
    using b1 by (simp_all add: I1_def vec_ok_def word_le_nat_alt)
  have room: "?w + unat len \<le> ?L"
    using b1(4) rw by (simp add: word_le_nat_alt unat_writable [OF b1(2,3)])
  have ld: "length ?d = unat len"
    using data by simp
  have rd: "mem_read data 0 (unat len) = Inr ?d"
    using data by (simp add: mem_read_ok)
  let ?m = "take ?w (buffer b1) @ ?d @ drop (?w + unat len) (buffer b1)"
  have wr: "mem_write (buffer b1) ?w ?d = Inr ?m"
    using room ld by (simp add: mem_write_ok)
  have lm: "length ?m = ?L"
    using room ld by simp
  let ?b2 = "b1\<lparr>buffer := ?m\<rparr>"
  have wb: "writableBytes ?b2 = writableBytes b1"
    using lm by (simp add: writableBytes_def vec_size_def)
  let ?b' = "?b2\<lparr>writerIndex := writerIndex b1 + len\<rparr>"
  have hw: "hasWritten len ?b2 = Inr ?b'"
    using b1(4) wb by (simp add: hasWritten_def)
  have app: "append data len b = Inr ?b'"
    using b1(1) rd wr hw by (simp add: append_def beginWrite_def)
  have w': "unat (writerIndex b1 + len) = ?w + unat len"
    using room rw by (simp add: unat_add_lem [THEN iffD1])
  have i: "I1 ?b'"
    using rw room w' lm by (simp add: I1_def word_le_nat_alt)
  have v: "vec_ok ?b'"
    using lm rw by (simp add: vec_ok_def)
  have "content ?b' = content b1 @ ?d"
    using rw room w' ld by (simp add: content_def drop_take)
  with app i v b1(5,6) lm show ?thesis
    by (intro that [of ?b']) simp_all
qed

lemma prepend_ok:
  fixes b :: Buffer and len :: size_t and data :: "byte list"
  defines "b' \<equiv> b\<lparr>readerIndex := readerIndex b - len,
                  buffer := take (unat (readerIndex b) - unat len) (buffer b) @ take (unat len) data @
                            drop (unat (readerIndex b)) (buffer b)\<rparr>"
  assumes inv: "I1 b" and pre: "len \<le> prependableBytes b"
    and data: "unat len \<le> length data"
  shows "prepend data len b = Inr b'"
    and "content b' = take (unat len) data @ content b"
    and "I1 b'"
    and "length (buffer b') = length (buffer b)"
proof -
  let ?r = "unat (readerIndex b)" and ?w = "unat (writerIndex b)" and ?L = "length (buffer b)"
  let ?d = "take (unat len) data"
  have rw: "?r \<le> ?w" "?w \<le> ?L"
    using inv by (simp_all add: I1_def word_le_nat_alt)
  have le: "unat len \<le> ?r"
    using pre by (simp add: prependableBytes_def word_le_nat_alt)
  have r': "unat (readerIndex b - len) = ?r - unat len"
    using pre by (simp add: prependableBytes_def unat_sub)
  have ld: "length ?d = unat len"
    using data by simp
  have rd: "mem_read data 0 (unat len) = Inr ?d"
    using data by (simp add: mem_read_ok)
  have wr: "mem_write (buffer b) (?r - unat len) ?d =
              Inr (take (?r - unat len) (buffer b) @ ?d @ drop ?r (buffer b))"
    using le rw ld by (simp add: mem_write_ok)
  show "prepend data len b = Inr b'"
    using pre rd wr r' by (simp add: prepend_def Let_def b'_def)
  show "length (buffer b') = ?L"
    using le rw ld by (simp add: b'_def)
  then show "I1 b'"
    using rw le r' by (simp add: I1_def word_le_nat_alt b'_def)
  show "content b' = ?d @ content b"
    using rw le r' ld by (simp add: content_def b'_def)
qed

subsection \<open>Byte representation of integers\<close>

lemma length_le_bytes [simp]: "length (le_bytes n x) = n"
  by (induction n arbitrary: x) simp_all

lemma le_word_le_bytes: "(le_word (le_bytes n x) :: 'a::len word) = take_bit (8 * n) (x :: 'a word)"
proof (induction n arbitrary: x)
  case 0
  show ?case by simp
next
  case (Suc n)
  show ?case
    apply (simp add: Suc)
    apply (rule bit_word_eqI)
    apply (auto simp add: bit_simps)
    done
qed

lemma le_word_le_bytes_id:
  "LENGTH('a) \<le> 8 * n \<Longrightarrow> le_word (le_bytes n x) = (x :: 'a::len word)"
  by (simp add: le_word_le_bytes take_bit_word_eq_self)

subsection \<open>Each operation keeps the invariant\<close>

lemma invD: "inv b \<Longrightarrow> I1 b" "inv b \<Longrightarrow> vec_ok b" "inv b \<Longrightarrow> 8 \<le> length (buffer b)"
  by (simp_all add: inv_def)

lemma inv_bounds:
  assumes "inv b"
  shows "unat (readerIndex b) \<le> unat (writerIndex b)" "unat (writerIndex b) \<le> length (buffer b)"
    "length (buffer b) < 2 ^ 64" "8 \<le> length (buffer b)"
  using assms by (simp_all add: inv_def I1_def vec_ok_def word_le_nat_alt)

lemma I1_bounds:
  assumes "I1 b"
  shows "unat (readerIndex b) \<le> unat (writerIndex b)" "unat (writerIndex b) \<le> length (buffer b)"
  using assms by (simp_all add: I1_def word_le_nat_alt)

lemma unat_size_t_less: "unat (x :: size_t) < 2 ^ 64"
  using unsigned_less [of x, where ?'a = nat] by simp

lemma retrieveAll_inv: "inv b \<Longrightarrow> inv (retrieveAll b)"
  by (simp add: inv_def I1_def vec_ok_def retrieveAll_def)

lemma retrieve_less:
  assumes "I1 b" "len < readableBytes b"
  shows "retrieve len b = Inr (b\<lparr>readerIndex := readerIndex b + len\<rparr>)"
    and "unat (readerIndex b + len) = unat (readerIndex b) + unat len"
    and "unat (readerIndex b) + unat len < unat (writerIndex b)"
proof -
  have lt: "unat len < unat (writerIndex b) - unat (readerIndex b)"
    using assms by (simp add: word_less_nat_alt unat_readable)
  then show "unat (readerIndex b) + unat len < unat (writerIndex b)"
    by arith
  then have "unat (readerIndex b) + unat len < 2 ^ 64"
    using unat_size_t_less [of "writerIndex b"] by simp
  then show "unat (readerIndex b + len) = unat (readerIndex b) + unat len"
    by (simp add: unat_add_lem [THEN iffD1])
  show "retrieve len b = Inr (b\<lparr>readerIndex := readerIndex b + len\<rparr>)"
    using assms(2) by (simp add: retrieve_def)
qed

lemma retrieve_inv:
  assumes "inv b" "len \<le> readableBytes b"
  shows "\<exists>b'. retrieve len b = Inr b' \<and> inv b'"
proof (cases "len < readableBytes b")
  case True
  note r = retrieve_less [OF invD(1) [OF assms(1)] True]
  show ?thesis
    using r assms(1) by (simp add: inv_def I1_def vec_ok_def word_le_nat_alt)
next
  case False
  then show ?thesis
    using assms by (simp add: retrieve_def retrieveAll_inv)
qed

lemma retrieveUntil_inv:
  assumes "inv b" "peek b \<le> end" "end \<le> beginWrite b"
  shows "\<exists>b'. retrieveUntil end b = Inr b' \<and> inv b'"
proof -
  have "unat (end - peek b) = unat end - unat (readerIndex b)"
    using assms(2) by (simp add: peek_def unat_sub)
  moreover have "unat end \<le> unat (writerIndex b)"
    using assms(3) by (simp add: beginWrite_def word_le_nat_alt)
  ultimately have "end - peek b \<le> readableBytes b"
    using inv_bounds [OF assms(1)] invD(1) [OF assms(1)]
    by (simp add: word_le_nat_alt unat_readable)
  then show ?thesis
    using assms retrieve_inv by (simp add: retrieveUntil_def)
qed

lemma retrieveAsString_ok:
  assumes "I1 b" "len \<le> readableBytes b"
  shows "retrieveAsString len b = and_then (retrieve len b) (\<lambda>b'. Inr (take (unat len) (content b), b'))"
proof -
  have le: "unat len \<le> unat (writerIndex b) - unat (readerIndex b)"
    using assms by (simp add: word_le_nat_alt unat_readable)
  then have "mem_read (buffer b) (unat (readerIndex b)) (unat len) = Inr (take (unat len) (content b))"
    using I1_bounds [OF assms(1)] by (simp add: mem_read_ok content_def min_absorb1)
  then show ?thesis
    using assms(2) by (simp add: retrieveAsString_def peek_def)
qed

lemma retrieveAsString_inv:
  assumes "inv b" "len \<le> readableBytes b"
  shows "\<exists>res. retrieveAsString len b = Inr res \<and> inv (snd res)"
  using retrieve_inv [OF assms] retrieveAsString_ok [OF invD(1) [OF assms(1)] assms(2)]
  by auto

lemma hasWritten_inv:
  assumes "inv b" "len \<le> writableBytes b"
  shows "\<exists>b'. hasWritten len b = Inr b' \<and> inv b'"
proof -
  note bs = inv_bounds [OF assms(1)]
  have le: "unat len \<le> length (buffer b) - unat (writerIndex b)"
    using assms by (simp add: word_le_nat_alt unat_writable invD)
  then have "unat (writerIndex b) + unat len < 2 ^ 64"
    using bs by simp
  then have "unat (writerIndex b + len) = unat (writerIndex b) + unat len"
    by (simp add: unat_add_lem [THEN iffD1])
  then show ?thesis
    using assms le bs by (simp add: hasWritten_def inv_def I1_def vec_ok_def word_le_nat_alt)
qed

lemma unwrite_inv:
  assumes "inv b" "len \<le> readableBytes b"
  shows "\<exists>b'. unwrite len b = Inr b' \<and> inv b'"
proof -
  note bs = inv_bounds [OF assms(1)]
  have le: "unat len \<le> unat (writerIndex b) - unat (readerIndex b)"
    using assms by (simp add: word_le_nat_alt unat_readable invD)
  then have "unat len \<le> unat (writerIndex b)"
    by simp
  then have "unat (writerIndex b - len) = unat (writerIndex b) - unat len"
    by (simp add: unat_sub word_le_nat_alt)
  moreover have "unat (readerIndex b) \<le> unat (writerIndex b) - unat len"
    "unat (writerIndex b) - unat len \<le> length (buffer b)"
    using le bs by arith+
  ultimately show ?thesis
    using assms bs by (simp add: unwrite_def inv_def I1_def vec_ok_def word_le_nat_alt)
qed

lemma ensureWritableBytes_inv:
  assumes "inv b" "no_overflow len b"
  shows "\<exists>b'. ensureWritableBytes len b = Inr b' \<and> inv b'"
proof -
  obtain b' where "ensureWritableBytes len b = Inr b'" "I1 b'" "vec_ok b'"
    "length (buffer b) \<le> length (buffer b')"
    using ensureWritableBytes_ok [OF invD(1,2) [OF assms(1)] assms(2)] by blast
  then show ?thesis
    using invD(3) [OF assms(1)] by (simp add: inv_def)
qed

lemma append_inv:
  assumes "inv b" "no_overflow len b" "unat len \<le> length data"
  shows "\<exists>b'. append data len b = Inr b' \<and> inv b'"
proof -
  obtain b' where "append data len b = Inr b'" "I1 b'" "vec_ok b'"
    "length (buffer b) \<le> length (buffer b')"
    using append_ok [OF invD(1,2) [OF assms(1)] assms(2,3)] by blast
  then show ?thesis
    using invD(3) [OF assms(1)] by (simp add: inv_def)
qed

lemma prepend_inv:
  assumes "inv b" "len \<le> prependableBytes b" "unat len \<le> length data"
  shows "\<exists>b'. prepend data len b = Inr b' \<and> inv b'"
  using prepend_ok [OF invD(1) [OF assms(1)] assms(2,3)] assms(1)
  by (simp add: inv_def vec_ok_def)

lemma new_Buffer_ok:
  "new_Buffer n = Inr \<lparr>buffer = replicate (unat (kCheapPrepend + n)) 0,
                        readerIndex = kCheapPrepend, writerIndex = kCheapPrepend\<rparr>"
  by (simp add: new_Buffer_def readableBytes_def writableBytes_def prependableBytes_def
      vec_size_def)

lemma new_Buffer_inv:
  assumes "unat kCheapPrepend + unat n < 2 ^ 64"
  shows "\<exists>b. new_Buffer n = Inr b \<and> inv b"
proof -
  have "unat (kCheapPrepend + n) = 8 + unat n"
    using assms by (simp add: unat_add_lem [THEN iffD1])
  then show ?thesis
    using assms by (simp add: new_Buffer_ok inv_def I1_def vec_ok_def)
qed

lemma swap_eq: "swap b rhs = (rhs, b)"
  by (simp add: swap_def)

lemma append_enough:
  fixes b :: Buffer and len :: size_t and data :: "byte list"
  defines "b' \<equiv> b\<lparr>buffer := take (unat (writerIndex b)) (buffer b) @ take (unat len) data @
                              drop (unat (writerIndex b) + unat len) (buffer b),
                    writerIndex := writerIndex b + len\<rparr>"
  assumes inv: "I1 b" "vec_ok b" and room: "len \<le> writableBytes b"
    and data: "unat len \<le> length data"
  shows "append data len b = Inr b'"
    and "I1 b'" and "vec_ok b'"
    and "content b' = content b @ take (unat len) data"
    and "length (buffer b') = length (buffer b)"
    and "readerIndex b' = readerIndex b"
proof -
  let ?r = "unat (readerIndex b)" and ?w = "unat (writerIndex b)" and ?L = "length (buffer b)"
  let ?d = "take (unat len) data"
  have rw: "?r \<le> ?w" "?w \<le> ?L" "?L < 2 ^ 64"
    using inv by (simp_all add: I1_def vec_ok_def word_le_nat_alt)
  have room': "?w + unat len \<le> ?L"
    using room rw by (simp add: word_le_nat_alt unat_writable [OF inv])
  have ld: "length ?d = unat len"
    using data by simp
  have rd: "mem_read data 0 (unat len) = Inr ?d"
    using data by (simp add: mem_read_ok)
  let ?m = "take ?w (buffer b) @ ?d @ drop (?w + unat len) (buffer b)"
  have wr: "mem_write (buffer b) ?w ?d = Inr ?m"
    using room' ld by (simp add: mem_write_ok)
  have lm: "length ?m = ?L"
    using room' ld by simp
  have wb: "writableBytes (b\<lparr>buffer := ?m\<rparr>) = writableBytes b"
    using lm by (simp add: writableBytes_def vec_size_def)
  have hw: "hasWritten len (b\<lparr>buffer := ?m\<rparr>) = Inr b'"
    using room wb by (simp add: hasWritten_def b'_def)
  have en: "ensureWritableBytes len b = Inr b"
    using room by (simp add: ensureWritableBytes_enough)
  show "append data len b = Inr b'"
    using en rd wr hw by (simp add: append_def beginWrite_def)
  have w': "unat (writerIndex b + len) = ?w + unat len"
    using room' rw by (simp add: unat_add_lem [THEN iffD1])
  show "length (buffer b') = ?L"
    using lm by (simp add: b'_def)
  show "I1 b'"
    using rw room' w' lm by (simp add: I1_def word_le_nat_alt b'_def)
  show "vec_ok b'"
    using lm rw by (simp add: vec_ok_def b'_def)
  show "content b' = content b @ ?d"
    using rw room' w' ld by (simp add: content_def drop_take b'_def)
  show "readerIndex b' = readerIndex b"
    by (simp add: b'_def)
qed

lemma shrink_ok:
  assumes inv: "I1 b" "vec_ok b" and n: "n \<le> readableBytes b"
    and fits: "unat (readableBytes b) + unat reserve + unat kCheapPrepend < 2 ^ 64"
  shows "\<exists>b'. shrink n reserve b = Inr b' \<and> I1 b' \<and> vec_ok b' \<and>
           content b' = take (unat n) (content b) \<and>
           length (buffer b') = 8 + max 1024 (unat (readableBytes b) + unat reserve) \<and>
           readerIndex b' = kCheapPrepend"
proof -
  let ?m = "readableBytes b + reserve"
  let ?o = "\<lparr>buffer = replicate 1032 (0 :: byte), readerIndex = kCheapPrepend,
             writerIndex = kCheapPrepend\<rparr>"
  have new: "new_Buffer kInitialSize = Inr ?o"
    by (simp add: new_Buffer_ok kInitialSize_def kCheapPrepend_def)
  have oinv: "I1 ?o" "vec_ok ?o"
    by (simp_all add: I1_def vec_ok_def)
  have m: "unat ?m = unat (readableBytes b) + unat reserve"
    using fits by (simp add: unat_add_lem [THEN iffD1])
  have nov: "no_overflow ?m ?o"
    using fits m by (simp add: no_overflow_def)
  have wo: "unat (writableBytes ?o) = 1024"
    by (simp add: unat_writable [OF oinv])
  have po: "unat (prependableBytes ?o) = 8"
    by (simp add: prependableBytes_def)
  have "\<exists>o1. ensureWritableBytes ?m ?o = Inr o1 \<and> I1 o1 \<and> vec_ok o1 \<and> ?m \<le> writableBytes o1 \<and>
          readerIndex o1 = kCheapPrepend \<and> writerIndex o1 = kCheapPrepend \<and>
          length (buffer o1) = 8 + max 1024 (unat ?m)"
  proof (cases "writableBytes ?o < ?m")
    case False
    then have "ensureWritableBytes ?m ?o = Inr ?o" "?m \<le> writableBytes ?o"
      by (simp_all add: ensureWritableBytes_enough)
    moreover from this(2) have "unat ?m \<le> 1024"
      using wo by (simp add: word_le_nat_alt)
    ultimately show ?thesis
      using oinv by (simp add: max_absorb1)
  next
    case True
    then have big: "1024 < unat ?m"
      using wo by (simp add: word_less_nat_alt)
    have "unat (writableBytes ?o + prependableBytes ?o) = 1032"
      using wo po by (simp add: unat_add_lem [THEN iffD1])
    moreover have "unat (?m + kCheapPrepend) = unat ?m + 8"
      using fits m by (simp add: unat_add_lem [THEN iffD1])
    ultimately have cond: "writableBytes ?o + prependableBytes ?o < ?m + kCheapPrepend"
      using big by (simp add: word_less_nat_alt)
    let ?o1 = "?o\<lparr>buffer := buffer ?o @ replicate (unat (writerIndex ?o) + unat ?m - length (buffer ?o)) 0\<rparr>"
    have e: "ensureWritableBytes ?m ?o = Inr ?o1"
      by (rule ensureWritableBytes_grow [OF oinv nov True cond])
    have len1: "length (buffer ?o1) = 8 + unat ?m"
      using big by simp
    have ok1: "I1 ?o1" "vec_ok ?o1"
      using fits m big by (simp_all add: I1_def vec_ok_def)
    have "unat (writableBytes ?o1) = length (buffer ?o1) - unat (writerIndex ?o1)"
      by (rule unat_writable [OF ok1])
    then have "?m \<le> writableBytes ?o1"
      using big by (simp add: word_le_nat_alt)
    with e ok1 len1 big show ?thesis
      by (simp add: max_absorb2)
  qed
  then obtain o1 where o1: "ensureWritableBytes ?m ?o = Inr o1" "I1 o1" "vec_ok o1"
    "?m \<le> writableBytes o1" "readerIndex o1 = kCheapPrepend" "writerIndex o1 = kCheapPrepend"
    "length (buffer o1) = 8 + max 1024 (unat ?m)"
    by blast
  note bs = I1_bounds [OF inv(1)]
  have n': "unat n \<le> unat (writerIndex b) - unat (readerIndex b)"
    using n by (simp add: word_le_nat_alt unat_readable [OF inv(1)])
  have "unat n \<le> unat ?m"
    using n m by (simp add: word_le_nat_alt)
  then have room: "n \<le> writableBytes o1"
    using o1(4) by (simp add: word_le_nat_alt)
  let ?data = "drop (unat (peek b)) (buffer b)"
  have data: "unat n \<le> length ?data"
    using n' bs by (simp add: peek_def)
  have take_data: "take (unat n) ?data = take (unat n) (content b)"
    using n' by (simp add: content_def peek_def min_absorb1)
  note ap = append_enough [OF o1(2,3) room data]
  have c1: "content o1 = []"
    using o1(5,6) by (simp add: content_def)
  show ?thesis
    using new o1(1) ap o1(5,7) m c1 take_data
    by (simp add: shrink_def swap_eq)
qed

lemma shrink_inv:
  assumes "inv b" "n \<le> readableBytes b"
    "unat (readableBytes b) + unat reserve + unat kCheapPrepend < 2 ^ 64"
  shows "\<exists>b'. shrink n reserve b = Inr b' \<and> inv b'"
  using shrink_ok [OF invD(1,2) [OF assms(1)] assms(2,3)]
  by (auto simp: inv_def)

lemma step_inv:
  assumes "inv b" "pre c b"
  shows "\<exists>b'. step c b = Inr b' \<and> inv b'"
proof (cases c)
  case (Append data len)
  then show ?thesis using assms append_inv by simp
next
  case (AppendInt64 x)
  then show ?thesis using assms append_inv [of b 8 "le_bytes 8 x"] by (simp add: appendInt64_def)
next
  case (AppendInt32 x)
  then show ?thesis using assms append_inv [of b 4 "le_bytes 4 x"] by (simp add: appendInt32_def)
next
  case (AppendInt16 x)
  then show ?thesis using assms append_inv [of b 2 "le_bytes 2 x"] by (simp add: appendInt16_def)
next
  case (AppendInt8 x)
  then show ?thesis using assms append_inv [of b 1 "le_bytes 1 x"] by (simp add: appendInt8_def)
next
  case (Prepend data len)
  then show ?thesis using assms prepend_inv by simp
next
  case (PrependInt32 be32 x)
  then show ?thesis using assms prepend_inv [of b 4 "le_bytes 4 be32"] by (simp add: prependInt32_def)
next
  case (PrependInt16 be16 x)
  then show ?thesis using assms prepend_inv [of b 2 "le_bytes 2 be16"] by (simp add: prependInt16_def)
next
  case (PrependInt8 x)
  then show ?thesis using assms prepend_inv [of b 1 "le_bytes 1 x"] by (simp add: prependInt8_def)
next
  case (Retrieve len)
  then show ?thesis using assms retrieve_inv by simp
next
  case (RetrieveUntil e)
  then show ?thesis using assms retrieveUntil_inv by simp
next
  case RetrieveInt64
  then show ?thesis using assms retrieve_inv by (simp add: retrieveInt64_def)
next
  case RetrieveInt32
  then show ?thesis using assms retrieve_inv by (simp add: retrieveInt32_def)
next
  case RetrieveInt16
  then show ?thesis using assms retrieve_inv by (simp add: retrieveInt16_def)
next
  case RetrieveInt8
  then show ?thesis using assms retrieve_inv by (simp add: retrieveInt8_def)
next
  case RetrieveAll
  then show ?thesis using assms retrieveAll_inv by simp
next
  case (RetrieveAsString len)
  then show ?thesis using assms retrieveAsString_inv [of b len] by auto
next
  case RetrieveAllAsString
  then show ?thesis using assms retrieveAsString_inv [of b "readableBytes b"]
    by (auto simp: retrieveAllAsString_def)
next
  case (HasWritten len)
  then show ?thesis using assms hasWritten_inv by simp
next
  case (Unwrite len)
  then show ?thesis using assms unwrite_inv by simp
next
  case (EnsureWritableBytes len)
  then show ?thesis using assms ensureWritableBytes_inv by simp
next
  case (Shrink n reserve)
  then show ?thesis using assms shrink_inv by simp
next
  case (Swap rhs)
  then show ?thesis using assms by (simp add: swap_eq)
qed

lemma run_inv:
  assumes "inv b" "valid cs b"
  shows "(\<exists>b'. run cs b = Inr b' \<and> inv b') \<and> list_all inv (trace cs b) \<and>
         list_all I1 (trace cs b) \<and> length (trace cs b) = length cs"
  using assms
proof (induction cs arbitrary: b)
  case Nil
  then show ?case by simp
next
  case (Cons c cs)
  from Cons.prems obtain b1 where b1: "step c b = Inr b1" "inv b1"
    using step_inv [of b c] by auto
  with Cons.prems have "valid cs b1" by simp
  from Cons.IH [OF b1(2) this] b1 invD(1) [OF b1(2)] show ?case by simp
qed

subsection \<open>Reading the content\<close>

lemma retrieve_content:
  assumes "I1 b" "len \<le> readableBytes b"
  shows "\<exists>b'. retrieve len b = Inr b' \<and> content b' = drop (unat len) (content b) \<and>
           readableBytes b' = readableBytes b - len"
proof (cases "len < readableBytes b")
  case True
  note r = retrieve_less [OF assms(1) True]
  have "content (b\<lparr>readerIndex := readerIndex b + len\<rparr>) = drop (unat len) (content b)"
    using r(2,3) by (simp add: content_def drop_take add.commute)
  then show ?thesis
    using r(1) by (simp add: readableBytes_def)
next
  case False
  with assms(2) have eq: "len = readableBytes b" by simp
  have "content (retrieveAll b) = []"
    by (simp add: content_def retrieveAll_def)
  moreover have "drop (unat len) (content b) = []"
    using eq by (simp add: content_length [OF assms(1)] unat_readable [OF assms(1)])
  ultimately show ?thesis
    using eq by (simp add: retrieve_def readableBytes_def retrieveAll_def)
qed

lemma readable_content: "I1 b \<Longrightarrow> unat (readableBytes b) = length (content b)"
  by (simp add: unat_readable content_length)

lemma peek_content:
  assumes "I1 b" "n \<le> unat (readableBytes b)"
  shows "mem_read (buffer b) (unat (peek b)) n = Inr (take n (content b))"
proof -
  note bs = I1_bounds [OF assms(1)]
  have "n \<le> unat (writerIndex b) - unat (readerIndex b)"
    using assms by (simp add: unat_readable)
  then show ?thesis
    using bs by (simp add: mem_read_ok content_def peek_def min_absorb1)
qed

lemma peekInt32_content:
  assumes "I1 b" "4 \<le> readableBytes b"
  shows "peekInt32 b = Inr (le_word (take 4 (content b)))"
proof -
  have "4 \<le> unat (readableBytes b)"
    using assms(2) by (simp add: word_le_nat_alt)
  from peek_content [OF assms(1) this] assms(2) show ?thesis
    by (simp add: peekInt32_def)
qed

lemma peekInt16_content:
  assumes "I1 b" "2 \<le> readableBytes b"
  shows "peekInt16 b = Inr (le_word (take 2 (content b)))"
proof -
  have "2 \<le> unat (readableBytes b)"
    using assms(2) by (simp add: word_le_nat_alt)
  from peek_content [OF assms(1) this] assms(2) show ?thesis
    by (simp add: peekInt16_def)
qed

lemma peekInt8_content:
  assumes "I1 b" "1 \<le> readableBytes b"
  shows "peekInt8 b = Inr (le_word (take 1 (content b)))"
proof -
  have "1 \<le> unat (readableBytes b)"
    using assms(2) by (simp add: word_le_nat_alt)
  from peek_content [OF assms(1) this] assms(2) show ?thesis
    by (simp add: peekInt8_def)
qed

lemma empty_content: "I1 b \<Longrightarrow> readableBytes b = 0 \<Longrightarrow> content b = []"
  using readable_content [of b] by simp

lemma append_int_empty:
  fixes k :: size_t and x :: "'a::len word"
  assumes inv: "I1 b" "vec_ok b" and empty: "readableBytes b = 0" and nov: "no_overflow k b"
    and n: "unat k = n"
  shows "\<exists>b'. append (le_bytes n x) k b = Inr b' \<and> I1 b' \<and> content b' = le_bytes n x \<and>
           readableBytes b' = k"
proof -
  have data: "unat k \<le> length (le_bytes n x)"
    using n by simp
  obtain b' where b': "append (le_bytes n x) k b = Inr b'" "I1 b'"
    "content b' = content b @ take (unat k) (le_bytes n x)"
    using append_ok [OF inv nov data] by blast
  have c: "content b' = le_bytes n x"
    using b'(3) n empty_content [OF inv(1) empty] by simp
  have "unat (readableBytes b') = unat k"
    using c n by (simp add: readable_content [OF b'(2)])
  then have "readableBytes b' = k"
    by (simp add: word_unat_eq_iff)
  with b' c show ?thesis by blast
qed

subsection \<open>Evaluation on concrete buffers\<close>

lemmas eval_defs =
  new_Buffer_def readableBytes_def writableBytes_def prependableBytes_def peek_def beginWrite_def
  vec_size_def vec_resize_def mem_read_def mem_range_def mem_write_def kCheapPrepend_def kInitialSize_def
  peekInt32_def peekInt16_def peekInt8_def prepend_def prependInt32_def prependInt16_def
  prependInt8_def retrieveAll_def retrieve_def retrieveUntil_def retrieveInt64_def
  retrieveInt32_def retrieveInt16_def retrieveInt8_def retrieveAsString_def
  retrieveAllAsString_def hasWritten_def unwrite_def makeSpace_def ensureWritableBytes_def
  append_def appendInt64_def appendInt32_def appendInt16_def appendInt8_def shrink_def swap_def
  I1_def vec_ok_def inv_def content_def no_overflow_def Let_def

lemma le_bytes_numeral [simp]: "le_bytes (numeral k) x = ucast x # le_bytes (pred_numeral k) (drop_bit 8 x)"
  by (simp add: numeral_eq_Suc)

lemma replicate_numeral: "replicate (numeral k) x = x # replicate (pred_numeral k) x"
  by (simp add: numeral_eq_Suc)

text \<open>
  The lemma \<open>run_inv\<close> at work: fourteen calls on a buffer of initial size 8, each made
  with its precondition.
\<close>

lemma run_inv_example:
  "inv buf_new8 \<and>
   valid example_calls buf_new8 \<and>
   run example_calls buf_new8 = Inr buf_three_shrunk_reset \<and>
   list_all inv (trace example_calls buf_new8)"
proof -
  have v: "inv buf_new8" "valid example_calls buf_new8"
    by (simp_all add: eval_defs replicate_numeral)
  have r: "run example_calls buf_new8 = Inr buf_three_shrunk_reset"
    by (simp add: eval_defs replicate_numeral)
  from run_inv [OF v] v r show ?thesis
    by blast
qed

section \<open>The claims\<close>

subsection \<open>C1: the cursor invariant\<close>

text \<open>
  C1: every operation called with its stated precondition re-establishes \<open>I1\<close>, so that
  \<open>I1\<close> holds after every call of every valid sequence that starts from a freshly
  constructed buffer. \<^verbatim>\<open>ensureWritableBytes\<close> states no precondition and computes
  \<^verbatim>\<open>writerIndex_ + len\<close> in \<^verbatim>\<open>size_t\<close>. On a buffer of initial size 8, which satisfies
  \<open>I1\<close>, \<^verbatim>\<open>appendInt8(1)\<close> keeps \<open>I1\<close>; then \<^verbatim>\<open>ensureWritableBytes(2^64 - 9)\<close> returns
  without a failure and leaves \<open>writerIndex = 9\<close> beyond a storage of no bytes. The
  constructor adds \<^verbatim>\<open>kCheapPrepend + initialSize\<close> in \<^verbatim>\<open>size_t\<close> as well:
  \<^verbatim>\<open>Buffer(SIZE_MAX)\<close> passes its three assertions with seven bytes of storage and both
  cursors at 8. (Where no size wraps, \<open>I1\<close> and a storage of at least \<open>kCheapPrepend\<close>
  bytes hold after the constructor and after each call of every sequence of calls made
  with their preconditions, none of which fails: \<open>new_Buffer_inv\<close>, \<open>step_inv\<close>,
  \<open>run_inv\<close>.)
\<close>

theorem invariant_broken_by_wrap:
  "new_Buffer 8 = Inr buf_new8 \<and>
   I1 buf_new8 \<and>
   run [AppendInt8 1, EnsureWritableBytes 18446744073709551607] buf_new8 = Inr buf_wrapped \<and>
   trace [AppendInt8 1, EnsureWritableBytes 18446744073709551607] buf_new8 =
     [buf_one, buf_wrapped] \<and>
   I1 buf_one \<and>
   \<not> I1 buf_wrapped \<and>
   new_Buffer 18446744073709551615 = Inr buf_max \<and>
   \<not> I1 buf_max"
  by (simp add: eval_defs replicate_numeral)

subsection \<open>C2: growth\<close>

text \<open>
  C2, as stated: after \<^verbatim>\<open>ensureWritableBytes\<close> every byte that was readable is at the
  same offset of the storage. The compaction branch moves the readable bytes down to
  offset \<open>kCheapPrepend\<close>: after six bytes are appended to a buffer of initial size 8 and
  two are retrieved, \<^verbatim>\<open>ensureWritableBytes(3)\<close> compacts, and offset 10 of the storage,
  which held the readable byte 3, holds 5.
\<close>

theorem compaction_moves_bytes_counterexample:
  "new_Buffer 8 = Inr buf_new8 \<and>
   run [Append [1,2,3,4,5,6] 6, Retrieve 2] buf_new8 = Inr buf_six_read \<and>
   ensureWritableBytes 3 buf_six_read = Inr buf_compacted \<and>
   unat (readerIndex buf_six_read) \<le> 10 \<and>
   10 < unat (writerIndex buf_six_read) \<and>
   buffer buf_six_read ! 10 = 3 \<and>
   buffer buf_compacted ! 10 = 5 \<and>
   buffer buf_compacted ! 10 \<noteq> buffer buf_six_read ! 10"
  by (simp add: eval_defs replicate_numeral)

text \<open>
  C2, amended. For every state with \<open>I1\<close> and every \<open>n\<close> for which
  \<open>writerIndex + n\<close> and \<open>n + kCheapPrepend\<close> do not wrap, \<^verbatim>\<open>ensureWritableBytes(n)\<close>
  returns, with \<open>writableBytes \<ge> n\<close>, \<open>I1\<close>, the same number of readable bytes and the same
  readable content as a byte sequence; the storage does not get shorter. Without a
  shortfall the state is unchanged; in the growing branch the cursors and every byte of
  the old storage stay where they are and the storage has \<open>writerIndex + n\<close> bytes; in the
  compaction branch \<open>readerIndex\<close> was above \<open>kCheapPrepend\<close> and becomes \<open>kCheapPrepend\<close>,
  and the storage keeps its length.
\<close>

theorem ensureWritableBytes_growth:
  assumes "I1 b" and "vec_ok b" and "no_overflow n b"
  shows "\<exists>b'. ensureWritableBytes n b = Inr b' \<and> n \<le> writableBytes b' \<and> I1 b' \<and> vec_ok b' \<and>
           content b' = content b \<and> readableBytes b' = readableBytes b \<and>
           length (buffer b) \<le> length (buffer b') \<and>
           (n \<le> writableBytes b \<longrightarrow> b' = b) \<and>
           (writableBytes b < n \<and> writableBytes b + prependableBytes b < n + kCheapPrepend \<longrightarrow>
              readerIndex b' = readerIndex b \<and> writerIndex b' = writerIndex b \<and>
              take (length (buffer b)) (buffer b') = buffer b \<and>
              length (buffer b') = unat (writerIndex b) + unat n) \<and>
           (writableBytes b < n \<and> \<not> writableBytes b + prependableBytes b < n + kCheapPrepend \<longrightarrow>
              kCheapPrepend < readerIndex b \<and> readerIndex b' = kCheapPrepend \<and>
              length (buffer b') = length (buffer b))"
  using assms by (rule ensureWritableBytes_cases)

theorem ensureWritableBytes_growth_witness:
  "I1 buf_six_read \<and>
   vec_ok buf_six_read \<and>
   no_overflow 3 buf_six_read \<and>
   writableBytes buf_six_read < 3 \<and>
   \<not> writableBytes buf_six_read + prependableBytes buf_six_read < 3 + kCheapPrepend \<and>
   ensureWritableBytes 3 buf_six_read = Inr buf_compacted \<and>
   content buf_compacted = content buf_six_read \<and>
   I1 buf_new8 \<and>
   vec_ok buf_new8 \<and>
   no_overflow 10 buf_new8 \<and>
   writableBytes buf_new8 < 10 \<and>
   writableBytes buf_new8 + prependableBytes buf_new8 < 10 + kCheapPrepend \<and>
   ensureWritableBytes 10 buf_new8 = Inr buf_grown \<and>
   no_overflow 3 buf_new8 \<and>
   3 \<le> writableBytes buf_new8 \<and>
   ensureWritableBytes 3 buf_new8 = Inr buf_new8"
  using ensureWritableBytes_growth [of buf_six_read 3]
    ensureWritableBytes_growth [of buf_new8 10]
    ensureWritableBytes_growth [of buf_new8 3]
  by (simp add: eval_defs replicate_numeral)

subsection \<open>C3: the two branches of makeSpace\<close>

text \<open>
  C3: on a shortfall, \<^verbatim>\<open>makeSpace(len)\<close> either reallocates to at least
  \<open>writerIndex + len\<close> bytes with all bytes in place, or compacts. The code computes
  \<^verbatim>\<open>writerIndex_ + len\<close> in \<^verbatim>\<open>size_t\<close>. After \<^verbatim>\<open>appendInt8(1)\<close> on a buffer of initial
  size 8, \<open>writerIndex\<close> is 9; for \<open>len = 2 ^ 64 - 9\<close> there is a shortfall, the growing
  branch is taken, the sum wraps to 0 and \<^verbatim>\<open>resize(0)\<close> empties the storage: the readable
  byte is gone, \<open>I1\<close> is broken, and the closing assertion of \<^verbatim>\<open>ensureWritableBytes\<close>
  passes, its subtraction wrapping as well. (Where the two sums do not wrap, the two
  branches do what C3 says: \<open>makeSpace_grow\<close>, \<open>makeSpace_compact\<close>.)
\<close>

theorem makeSpace_wraps_and_truncates:
  "new_Buffer 8 = Inr buf_new8 \<and>
   appendInt8 1 buf_new8 = Inr buf_one \<and>
   I1 buf_one \<and>
   content buf_one = [1] \<and>
   writableBytes buf_one < 18446744073709551607 \<and>
   writableBytes buf_one + prependableBytes buf_one < 18446744073709551607 + kCheapPrepend \<and>
   writerIndex buf_one + 18446744073709551607 = 0 \<and>
   makeSpace 18446744073709551607 buf_one = Inr buf_wrapped \<and>
   ensureWritableBytes 18446744073709551607 buf_one = Inr buf_wrapped \<and>
   \<not> I1 buf_wrapped \<and>
   content buf_wrapped = []"
  by (simp add: eval_defs replicate_numeral)

subsection \<open>C4: append, then retrieveAsString\<close>

text \<open>
  C4, as stated: on every reachable state, \<^verbatim>\<open>append(b)\<close> followed by
  \<^verbatim>\<open>retrieveAsString(len(b))\<close> returns \<open>b\<close>. The buffer is a queue: when it already
  holds the byte 1, appending the byte 2 and retrieving one byte returns 1.
\<close>

theorem append_retrieveAsString_nonempty_counterexample:
  "new_Buffer 8 = Inr buf_new8 \<and>
   append [1] 1 buf_new8 = Inr buf_one \<and>
   append [2] 1 buf_one = Inr buf_two \<and>
   retrieveAsString 1 buf_two = Inr ([1], buf_two_read) \<and>
   [1 :: byte] \<noteq> [2]"
  by (simp add: eval_defs replicate_numeral)

text \<open>
  C4, amended. For every state with \<open>I1\<close> and readable content \<open>C\<close>, and every byte
  sequence \<open>bs\<close> of length \<open>len\<close> for which \<open>writerIndex + len\<close> and
  \<open>len + kCheapPrepend\<close> do not wrap, \<^verbatim>\<open>append(bs, len)\<close> followed by
  \<^verbatim>\<open>retrieveAsString(len)\<close> returns the first \<open>len\<close> bytes of \<open>C @ bs\<close> and leaves the
  rest readable; on a buffer with no readable bytes this is exactly \<open>bs\<close>.
\<close>

theorem append_then_retrieveAsString:
  assumes "I1 b" and "vec_ok b" and "length bs = unat len" and "no_overflow len b"
  shows "\<exists>b1 b2. append bs len b = Inr b1 \<and>
           retrieveAsString len b1 = Inr (take (unat len) (content b @ bs), b2) \<and>
           content b2 = drop (unat len) (content b @ bs) \<and>
           (readableBytes b = 0 \<longrightarrow> retrieveAsString len b1 = Inr (bs, b2))"
proof -
  have data: "unat len \<le> length bs"
    using assms(3) by simp
  obtain b1 where b1: "append bs len b = Inr b1" "I1 b1"
    "content b1 = content b @ take (unat len) bs"
    using append_ok [OF assms(1,2,4) data] by blast
  have c1: "content b1 = content b @ bs"
    using b1(3) assms(3) by simp
  have "unat len \<le> unat (readableBytes b1)"
    using c1 assms(3) by (simp add: readable_content [OF b1(2)])
  then have le: "len \<le> readableBytes b1"
    by (simp add: word_le_nat_alt)
  obtain b2 where b2: "retrieve len b1 = Inr b2" "content b2 = drop (unat len) (content b1)"
    using retrieve_content [OF b1(2) le] by blast
  have r: "retrieveAsString len b1 = Inr (take (unat len) (content b @ bs), b2)"
    using retrieveAsString_ok [OF b1(2) le] b2(1) c1 by simp
  have "take (unat len) (content b @ bs) = bs" if "readableBytes b = 0"
    using empty_content [OF assms(1) that] assms(3) by simp
  with b1(1) r b2(2) c1 show ?thesis
    by auto
qed

theorem append_then_retrieveAsString_witness:
  "I1 buf_one \<and>
   vec_ok buf_one \<and>
   length [2 :: byte] = unat (1 :: size_t) \<and>
   no_overflow 1 buf_one \<and>
   content buf_one = [1] \<and>
   (\<exists>b1 b2. append [2] 1 buf_one = Inr b1 \<and>
      retrieveAsString 1 b1 = Inr ([1], b2) \<and> content b2 = [2]) \<and>
   I1 buf_new8 \<and>
   vec_ok buf_new8 \<and>
   no_overflow 1 buf_new8 \<and>
   readableBytes buf_new8 = 0 \<and>
   (\<exists>b1 b2. append [2] 1 buf_new8 = Inr b1 \<and> retrieveAsString 1 b1 = Inr ([2], b2))"
proof -
  have h: "I1 buf_one" "vec_ok buf_one" "length [2 :: byte] = unat (1 :: size_t)" "no_overflow 1 buf_one"
    "content buf_one = [1]"
    by (simp_all add: I1_def vec_ok_def no_overflow_def content_def)
  have e: "I1 buf_new8" "vec_ok buf_new8" "no_overflow 1 buf_new8" "readableBytes buf_new8 = 0"
    by (simp_all add: I1_def vec_ok_def no_overflow_def readableBytes_def)
  show ?thesis
    using h e append_then_retrieveAsString [OF h(1,2,3,4)]
      append_then_retrieveAsString [OF e(1,2) h(3) e(3)]
    by auto
qed

subsection \<open>C5: integers\<close>

text \<open>
  C5, as stated: on every reachable state, \<^verbatim>\<open>appendIntN(x)\<close> followed by
  \<^verbatim>\<open>peekIntN()\<close> returns \<open>x\<close>, for \<open>N\<close> in 8, 16, 32, 64. Appending writes behind the
  readable bytes and peeking reads in front of them: after \<^verbatim>\<open>appendInt8(1)\<close>,
  \<^verbatim>\<open>appendInt8(2)\<close> followed by \<^verbatim>\<open>peekInt8()\<close> returns 1. (The class has no
  \<^verbatim>\<open>peekInt64\<close>.)
\<close>

theorem append_peek_nonempty_counterexample:
  "new_Buffer 8 = Inr buf_new8 \<and>
   appendInt8 1 buf_new8 = Inr buf_one \<and>
   appendInt8 2 buf_one = Inr buf_two \<and>
   peekInt8 buf_two = Inr 1 \<and>
   peekInt8 buf_two \<noteq> Inr 2"
  by (simp add: eval_defs replicate_numeral)

text \<open>
  C5, amended. On a state with \<open>I1\<close> and no readable bytes, where the sizes do not wrap,
  \<^verbatim>\<open>appendIntN(x)\<close> followed by \<^verbatim>\<open>peekIntN()\<close> returns \<open>x\<close> for \<open>N\<close> in 8, 16, 32, and
  \<^verbatim>\<open>appendInt64(x)\<close> makes readable exactly the eight bytes that represent \<open>x\<close>.
  A peek is a function of the state and returns a value only, so it moves no cursor. On a
  state with \<open>I1\<close> and at least \<open>N/8\<close> readable bytes, \<^verbatim>\<open>retrieveIntN()\<close> returns and has
  decreased \<open>readableBytes\<close> by exactly \<open>N/8\<close>, for \<open>N\<close> in 8, 16, 32, 64.
\<close>

theorem int_round_trip:
  assumes "I1 b" and "vec_ok b"
  shows "(readableBytes b = 0 \<and> no_overflow 4 b \<longrightarrow>
            (\<exists>b'. appendInt32 x32 b = Inr b' \<and> peekInt32 b' = Inr x32)) \<and>
         (readableBytes b = 0 \<and> no_overflow 2 b \<longrightarrow>
            (\<exists>b'. appendInt16 x16 b = Inr b' \<and> peekInt16 b' = Inr x16)) \<and>
         (readableBytes b = 0 \<and> no_overflow 1 b \<longrightarrow>
            (\<exists>b'. appendInt8 x8 b = Inr b' \<and> peekInt8 b' = Inr x8)) \<and>
         (readableBytes b = 0 \<and> no_overflow 8 b \<longrightarrow>
            (\<exists>b'. appendInt64 x64 b = Inr b' \<and> content b' = le_bytes 8 x64 \<and>
               readableBytes b' = 8 \<and> le_word (content b') = x64)) \<and>
         (8 \<le> readableBytes b \<longrightarrow>
            (\<exists>b'. retrieveInt64 b = Inr b' \<and> unat (readableBytes b') + 8 = unat (readableBytes b))) \<and>
         (4 \<le> readableBytes b \<longrightarrow>
            (\<exists>b'. retrieveInt32 b = Inr b' \<and> unat (readableBytes b') + 4 = unat (readableBytes b))) \<and>
         (2 \<le> readableBytes b \<longrightarrow>
            (\<exists>b'. retrieveInt16 b = Inr b' \<and> unat (readableBytes b') + 2 = unat (readableBytes b))) \<and>
         (1 \<le> readableBytes b \<longrightarrow>
            (\<exists>b'. retrieveInt8 b = Inr b' \<and> unat (readableBytes b') + 1 = unat (readableBytes b)))"
proof -
  have ret: "\<exists>b'. retrieve k b = Inr b' \<and> unat (readableBytes b') + unat k = unat (readableBytes b)"
    if k: "k \<le> readableBytes b" for k
  proof -
    obtain b' where "retrieve k b = Inr b'" "readableBytes b' = readableBytes b - k"
      using retrieve_content [OF assms(1) k] by blast
    moreover have "unat (readableBytes b - k) = unat (readableBytes b) - unat k" "unat k \<le> unat (readableBytes b)"
      using k by (simp_all add: unat_sub word_le_nat_alt)
    ultimately show ?thesis by simp
  qed
  have a32: "\<exists>b'. appendInt32 x32 b = Inr b' \<and> peekInt32 b' = Inr x32"
    if e: "readableBytes b = 0" "no_overflow 4 b"
  proof -
    obtain b' where b': "append (le_bytes 4 x32) 4 b = Inr b'" "I1 b'" "content b' = le_bytes 4 x32"
      "readableBytes b' = 4"
      using append_int_empty [OF assms e, of 4 x32] by auto
    have "peekInt32 b' = Inr (le_word (take 4 (content b')))"
      using b'(4) by (intro peekInt32_content [OF b'(2)]) simp
    then show ?thesis
      using b' by (simp add: appendInt32_def le_word_le_bytes_id del: le_bytes_numeral)
  qed
  have a16: "\<exists>b'. appendInt16 x16 b = Inr b' \<and> peekInt16 b' = Inr x16"
    if e: "readableBytes b = 0" "no_overflow 2 b"
  proof -
    obtain b' where b': "append (le_bytes 2 x16) 2 b = Inr b'" "I1 b'" "content b' = le_bytes 2 x16"
      "readableBytes b' = 2"
      using append_int_empty [OF assms e, of 2 x16] by auto
    have "peekInt16 b' = Inr (le_word (take 2 (content b')))"
      using b'(4) by (intro peekInt16_content [OF b'(2)]) simp
    then show ?thesis
      using b' by (simp add: appendInt16_def le_word_le_bytes_id del: le_bytes_numeral)
  qed
  have a8: "\<exists>b'. appendInt8 x8 b = Inr b' \<and> peekInt8 b' = Inr x8"
    if e: "readableBytes b = 0" "no_overflow 1 b"
  proof -
    obtain b' where b': "append (le_bytes 1 x8) 1 b = Inr b'" "I1 b'" "content b' = le_bytes 1 x8"
      "readableBytes b' = 1"
      using append_int_empty [OF assms e, of 1 x8] by auto
    have "peekInt8 b' = Inr (le_word (take 1 (content b')))"
      using b'(4) by (intro peekInt8_content [OF b'(2)]) simp
    then show ?thesis
      using b' le_word_le_bytes_id [of 1 x8] by (simp add: appendInt8_def)
  qed
  have a64: "\<exists>b'. appendInt64 x64 b = Inr b' \<and> content b' = le_bytes 8 x64 \<and>
                 readableBytes b' = 8 \<and> le_word (content b') = x64"
    if e: "readableBytes b = 0" "no_overflow 8 b"
  proof -
    obtain b' where b': "append (le_bytes 8 x64) 8 b = Inr b'" "content b' = le_bytes 8 x64"
      "readableBytes b' = 8"
      using append_int_empty [OF assms e, of 8 x64] by auto
    then show ?thesis
      by (simp add: appendInt64_def le_word_le_bytes_id del: le_bytes_numeral)
  qed
  show ?thesis
    using ret [of 8] ret [of 4] ret [of 2] ret [of 1] a32 a16 a8 a64
    by (simp add: retrieveInt64_def retrieveInt32_def retrieveInt16_def retrieveInt8_def)
qed

theorem int_round_trip_witness:
  "I1 buf_new8 \<and>
   vec_ok buf_new8 \<and>
   readableBytes buf_new8 = 0 \<and>
   no_overflow 8 buf_new8 \<and>
   (\<exists>b'. appendInt32 77777 buf_new8 = Inr b' \<and> peekInt32 b' = Inr 77777) \<and>
   (\<exists>b'. appendInt16 515 buf_new8 = Inr b' \<and> peekInt16 b' = Inr 515) \<and>
   (\<exists>b'. appendInt8 200 buf_new8 = Inr b' \<and> peekInt8 b' = Inr 200) \<and>
   appendInt64 578437695752307201 buf_new8 = Inr buf_eight \<and>
   content buf_eight = le_bytes 8 (578437695752307201 :: 64 word) \<and>
   content buf_eight = [1, 2, 3, 4, 5, 6, 7, 8] \<and>
   readableBytes buf_eight = 8 \<and>
   I1 buf_eight \<and>
   vec_ok buf_eight \<and>
   8 \<le> readableBytes buf_eight \<and>
   (\<exists>b'. retrieveInt64 buf_eight = Inr b' \<and>
      unat (readableBytes b') + 8 = unat (readableBytes buf_eight)) \<and>
   (\<exists>b'. retrieveInt16 buf_eight = Inr b' \<and>
      unat (readableBytes b') + 2 = unat (readableBytes buf_eight))"
proof -
  have e: "I1 buf_new8" "vec_ok buf_new8"
    "readableBytes buf_new8 = 0" "no_overflow 8 buf_new8"
    "no_overflow 4 buf_new8" "no_overflow 2 buf_new8" "no_overflow 1 buf_new8"
    by (simp_all add: I1_def vec_ok_def readableBytes_def no_overflow_def)
  have f: "I1 buf_eight" "vec_ok buf_eight"
    "8 \<le> readableBytes buf_eight" "2 \<le> readableBytes buf_eight"
    by (simp_all add: I1_def vec_ok_def readableBytes_def)
  have a: "appendInt64 578437695752307201 buf_new8 = Inr buf_eight"
    "content buf_eight = [1, 2, 3, 4, 5, 6, 7, 8]"
    by (simp_all add: eval_defs)
  show ?thesis
    using e f a
      int_round_trip [OF e(1,2), where ?x32.0 = 77777 and ?x16.0 = 515 and ?x8.0 = 200
        and ?x64.0 = 578437695752307201]
      int_round_trip [OF f(1,2)]
    by simp
qed

subsection \<open>C6: retrieve\<close>

text \<open>
  C6. For every state with \<open>I1\<close> and every \<open>len \<le> readableBytes\<close>: if
  \<open>len < readableBytes\<close>, \<^verbatim>\<open>retrieve(len)\<close> advances \<open>readerIndex\<close> by exactly \<open>len\<close>
  (without wrapping) and changes nothing else, so the readable content loses its first
  \<open>len\<close> bytes; if \<open>len = readableBytes\<close>, it does what \<^verbatim>\<open>retrieveAll\<close> does: both
  cursors become \<open>kCheapPrepend\<close>, so that afterwards \<open>readableBytes = 0\<close> and
  \<open>prependableBytes = kCheapPrepend\<close>.
\<close>

theorem retrieve_advances_or_resets:
  assumes "I1 b" and "len \<le> readableBytes b"
  shows "(len < readableBytes b \<longrightarrow>
            retrieve len b = Inr (b\<lparr>readerIndex := readerIndex b + len\<rparr>) \<and>
            unat (readerIndex b + len) = unat (readerIndex b) + unat len \<and>
            content (b\<lparr>readerIndex := readerIndex b + len\<rparr>) = drop (unat len) (content b)) \<and>
         (len = readableBytes b \<longrightarrow>
            retrieve len b = Inr (retrieveAll b) \<and>
            retrieveAll b = b\<lparr>readerIndex := kCheapPrepend, writerIndex := kCheapPrepend\<rparr> \<and>
            readableBytes (retrieveAll b) = 0 \<and>
            prependableBytes (retrieveAll b) = kCheapPrepend)"
proof (intro conjI impI)
  assume lt: "len < readableBytes b"
  note r = retrieve_less [OF assms(1) lt]
  show "retrieve len b = Inr (b\<lparr>readerIndex := readerIndex b + len\<rparr>)" by (rule r(1))
  show "unat (readerIndex b + len) = unat (readerIndex b) + unat len" by (rule r(2))
  show "content (b\<lparr>readerIndex := readerIndex b + len\<rparr>) = drop (unat len) (content b)"
    using r(2,3) by (simp add: content_def drop_take add.commute)
next
  assume eq: "len = readableBytes b"
  show "retrieve len b = Inr (retrieveAll b)"
    using eq by (simp add: retrieve_def)
  show "retrieveAll b = b\<lparr>readerIndex := kCheapPrepend, writerIndex := kCheapPrepend\<rparr>"
    by (simp add: retrieveAll_def)
  show "readableBytes (retrieveAll b) = 0"
    by (simp add: retrieveAll_def readableBytes_def)
  show "prependableBytes (retrieveAll b) = kCheapPrepend"
    by (simp add: retrieveAll_def prependableBytes_def)
qed

theorem retrieve_advances_or_resets_witness:
  "I1 buf_six \<and>
   (2 :: size_t) < readableBytes buf_six \<and>
   retrieve 2 buf_six =
     Inr buf_six_read \<and>
   (6 :: size_t) = readableBytes buf_six \<and>
   retrieve 6 buf_six =
     Inr buf_six_reset"
  using retrieve_advances_or_resets
          [of buf_six 2]
        retrieve_advances_or_resets
          [of buf_six 6]
  by (simp add: I1_def readableBytes_def retrieveAll_def kCheapPrepend_def)

subsection \<open>C7: prepend\<close>

text \<open>
  C7. For every state with \<open>I1\<close> and readable content \<open>C\<close>, every \<open>k \<le> prependableBytes\<close>
  and every sequence \<open>h\<close> of \<open>k\<close> bytes, \<^verbatim>\<open>prepend(h, k)\<close> returns; it has decreased
  \<open>readerIndex\<close> by \<open>k\<close> and left \<open>writerIndex\<close> alone, the readable content is \<open>h @ C\<close>,
  and the storage from the old \<open>readerIndex\<close> on, where \<open>C\<close> lies, is unchanged.
\<close>

theorem prepend_correct:
  assumes "I1 b" and "k \<le> prependableBytes b" and "length h = unat k"
  shows "\<exists>b'. prepend h k b = Inr b' \<and>
           readerIndex b' = readerIndex b - k \<and>
           unat (readerIndex b') + unat k = unat (readerIndex b) \<and>
           writerIndex b' = writerIndex b \<and>
           content b' = h @ content b \<and>
           drop (unat (readerIndex b)) (buffer b') = drop (unat (readerIndex b)) (buffer b) \<and>
           length (buffer b') = length (buffer b) \<and>
           I1 b'"
proof -
  let ?b' = "b\<lparr>readerIndex := readerIndex b - k,
                buffer := take (unat (readerIndex b) - unat k) (buffer b) @ take (unat k) h @
                          drop (unat (readerIndex b)) (buffer b)\<rparr>"
  have data: "unat k \<le> length h"
    using assms(3) by simp
  note p = prepend_ok [OF assms(1,2) data]
  note bs = I1_bounds [OF assms(1)]
  have le: "unat k \<le> unat (readerIndex b)"
    using assms(2) by (simp add: prependableBytes_def word_le_nat_alt)
  have r': "unat (readerIndex b - k) = unat (readerIndex b) - unat k"
    using assms(2) by (simp add: prependableBytes_def unat_sub)
  have h: "take (unat k) h = h"
    using assms(3) by simp
  have "drop (unat (readerIndex b)) (buffer ?b') = drop (unat (readerIndex b)) (buffer b)"
    using le bs assms(3) by simp
  moreover have "unat (readerIndex ?b') + unat k = unat (readerIndex b)"
    using le r' by simp
  ultimately show ?thesis
    using p h by (intro exI [of _ ?b']) simp
qed

theorem prepend_correct_witness:
  "I1 buf_three \<and>
   (2 :: size_t) \<le> prependableBytes buf_three \<and>
   length [7, 9 :: byte] = unat (2 :: size_t) \<and>
   prepend [7, 9] 2 buf_three =
     Inr buf_three_hdr \<and>
   content buf_three_hdr =
     [7, 9] @ content buf_three"
  using prepend_correct
          [of buf_three 2 "[7, 9]"]
  by (simp add: eval_defs)

subsection \<open>C8: prependInt\<close>

text \<open>
  C8: \<^verbatim>\<open>prependIntN(x)\<close> prepends the representation of \<open>x\<close>; on a default buffer after
  \<^verbatim>\<open>append("hello", 5)\<close>, \<^verbatim>\<open>prependInt32(5)\<close> gives nine readable bytes whose first four
  decode to 5. \<^verbatim>\<open>prependInt32\<close> does not read \<open>x\<close>: the bytes it prepends are those of
  \<^verbatim>\<open>be32\<close>. With 7 under that name, the call \<^verbatim>\<open>prependInt32(5)\<close> gives nine readable
  bytes, the five last ones "hello", and the first four decode to 7.
\<close>

theorem prependInt32_prepends_be32_not_x:
  "new_Buffer kInitialSize = Inr buf_default \<and>
   append [104, 101, 108, 108, 111] 5 buf_default = Inr buf_hello \<and>
   prependInt32 7 5 buf_hello = Inr buf_hello_hdr \<and>
   readableBytes buf_hello_hdr = 9 \<and>
   content buf_hello_hdr = [7, 0, 0, 0, 104, 101, 108, 108, 111] \<and>
   peekInt32 buf_hello_hdr = Inr 7 \<and>
   peekInt32 buf_hello_hdr \<noteq> Inr 5"
  by (simp add: eval_defs)

subsection \<open>C9: shrink\<close>

text \<open>
  C9, as stated: after \<^verbatim>\<open>shrink(reserve)\<close> the storage fits \<open>readableBytes + reserve\<close>
  (plus the cheap-prepend zone) exactly. The buffer that \<^verbatim>\<open>shrink\<close> builds is
  default-constructed, with \<open>kInitialSize\<close> content bytes, and is only ever grown: with
  three readable bytes, \<^verbatim>\<open>shrink(0)\<close> leaves a storage of 1032 bytes, not of 11.
\<close>

theorem shrink_keeps_initial_size_counterexample:
  "I1 buf_three \<and>
   readableBytes buf_three = 3 \<and>
   shrink 3 0 buf_three = Inr buf_three_shrunk \<and>
   length (buffer buf_three_shrunk) = 1032 \<and>
   unat kCheapPrepend + (unat (readableBytes buf_three) + unat (0 :: size_t)) = 11 \<and>
   length (buffer buf_three_shrunk) \<noteq> unat kCheapPrepend + (unat (readableBytes buf_three) + unat (0 :: size_t))"
  by (simp add: eval_defs)

text \<open>
  C9, amended. For every state with \<open>I1\<close> and readable content \<open>C\<close>, and every \<open>reserve\<close>
  for which \<open>readableBytes + reserve + kCheapPrepend\<close> does not wrap,
  \<^verbatim>\<open>shrink(reserve)\<close>, copying the readable content (\<open>readableBytes\<close> bytes at
  \<^verbatim>\<open>peek()\<close>) into a default buffer that is grown if needed and swapping it in, returns
  a buffer with \<open>I1\<close> whose readable content is still exactly \<open>C\<close>, with \<open>readableBytes\<close>
  unchanged, and whose storage has
  \<open>kCheapPrepend + max kInitialSize (readableBytes + reserve)\<close> bytes.
\<close>

theorem shrink_result:
  assumes "I1 b" and "vec_ok b"
    and "unat (readableBytes b) + unat reserve + unat kCheapPrepend < 2 ^ 64"
  shows "\<exists>b'. shrink (readableBytes b) reserve b = Inr b' \<and> I1 b' \<and>
           content b' = content b \<and>
           readableBytes b' = readableBytes b \<and>
           length (buffer b') =
             unat kCheapPrepend + max (unat kInitialSize) (unat (readableBytes b) + unat reserve) \<and>
           readerIndex b' = kCheapPrepend"
proof -
  have n: "readableBytes b \<le> readableBytes b"
    by simp
  obtain b' where b': "shrink (readableBytes b) reserve b = Inr b'" "I1 b'"
    "content b' = take (unat (readableBytes b)) (content b)"
    "length (buffer b') = 8 + max 1024 (unat (readableBytes b) + unat reserve)"
    "readerIndex b' = kCheapPrepend"
    using shrink_ok [OF assms(1,2) n assms(3)] by blast
  have c: "content b' = content b"
    using b'(3) by (simp add: readable_content [OF assms(1)])
  then have "unat (readableBytes b') = unat (readableBytes b)"
    by (simp add: readable_content [OF assms(1)] readable_content [OF b'(2)])
  then have "readableBytes b' = readableBytes b"
    by (simp add: word_unat_eq_iff)
  with b' c show ?thesis
    by (intro exI [of _ b']) (simp add: kInitialSize_def)
qed

theorem shrink_result_witness:
  "I1 buf_three \<and>
   vec_ok buf_three \<and>
   unat (readableBytes buf_three) + unat (2000 :: size_t) + unat kCheapPrepend < 2 ^ 64 \<and>
   readableBytes buf_three = 3 \<and>
   content buf_three = [1, 2, 3] \<and>
   (\<exists>b'. shrink (readableBytes buf_three) 2000 buf_three = Inr b' \<and> content b' = [1, 2, 3] \<and>
      readableBytes b' = 3 \<and> length (buffer b') = 2011) \<and>
   (\<exists>b'. shrink (readableBytes buf_three) 0 buf_three = Inr b' \<and> content b' = [1, 2, 3] \<and>
      readableBytes b' = 3 \<and> length (buffer b') = 1032)"
proof -
  have h: "I1 buf_three" "vec_ok buf_three"
    "unat (readableBytes buf_three) + unat (2000 :: size_t) + unat kCheapPrepend < 2 ^ 64"
    "unat (readableBytes buf_three) + unat (0 :: size_t) + unat kCheapPrepend < 2 ^ 64"
    by (simp_all add: I1_def vec_ok_def readableBytes_def)
  have c: "readableBytes buf_three = 3" "content buf_three = [1, 2, 3]"
    by (simp_all add: readableBytes_def content_def)
  have n: "unat kCheapPrepend + max (unat kInitialSize) (unat (readableBytes buf_three) + unat (2000 :: size_t)) = 2011"
    "unat kCheapPrepend + max (unat kInitialSize) (unat (readableBytes buf_three) + unat (0 :: size_t)) = 1032"
    by (simp_all add: kInitialSize_def readableBytes_def)
  show ?thesis
    using h c shrink_result [OF h(1,2,3)] shrink_result [OF h(1,2,4)] n
    by auto
qed

subsection \<open>C10: the assertion of the compaction branch\<close>

text \<open>
  C10: in every state with \<open>I1\<close>, a shortfall and the compaction branch imply
  \<open>kCheapPrepend < readerIndex\<close>, so the assertion never fires. The branch condition
  compares with \<^verbatim>\<open>len + kCheapPrepend\<close>, computed in \<^verbatim>\<open>size_t\<close>. On a default buffer
  and for \<open>len = 2 ^ 64 - 1\<close> there is a shortfall, the sum wraps to 7, the compaction
  branch is taken with \<open>readerIndex = kCheapPrepend\<close>, and the assertion fails. (Where
  \<open>len + kCheapPrepend\<close> does not wrap, the assertion holds: \<open>makeSpace_compact\<close>.)
\<close>

theorem makeSpace_assertion_fires:
  "new_Buffer kInitialSize = Inr buf_default \<and>
   I1 buf_default \<and>
   writableBytes buf_default < 18446744073709551615 \<and>
   18446744073709551615 + kCheapPrepend = 7 \<and>
   \<not> writableBytes buf_default + prependableBytes buf_default < 18446744073709551615 + kCheapPrepend \<and>
   \<not> kCheapPrepend < readerIndex buf_default \<and>
   makeSpace 18446744073709551615 buf_default = Inl AssertionFailed \<and>
   ensureWritableBytes 18446744073709551615 buf_default = Inl AssertionFailed"
  by (simp add: eval_defs)

end
